theory Spec2Isabelle
  imports Complex_Main "HOL-Library.Word" "HOL-Library.Signed_Division"
begin

unbundle bit_operations_syntax

section \<open>Data model of \<^verbatim>\<open>synology/util/schedule_parser.go\<close>\<close>

text \<open>
  Go's \<^verbatim>\<open>int64\<close> is a 64-bit word: \<open>+\<close> wraps around, \<open><s\<close> and \<open>\<le>s\<close> are the
  signed comparisons of Go, and the bitwise operators act on the two's complement
  representation. Go's \<^verbatim>\<open>int\<close> is taken to be 64 bits wide (every 64-bit platform).
  Strings are byte strings, as in Go.
\<close>

type_synonym int64 = "64 word"

text \<open>
  \<^verbatim>\<open>*time.Location\<close>: a time zone, of which only the name is kept; \<open>None\<close> is
  the nil pointer. The parser never sets it.
\<close>

datatype time_Location = time_Location string

record Schedule =
  Second :: int64
  Minute :: int64
  Hour :: int64
  Dom :: int64
  Month :: int64
  Dow :: int64
  RepeatHour :: int64
  RepeatMin :: int64
  RepeatDate :: int64
  Location :: "time_Location option"

text \<open>
  A Go composite literal leaves every field that is not named at its zero value;
  \<open>Schedule_zero\<close> is the literal \<^verbatim>\<open>Schedule{}\<close>.
\<close>

definition Schedule_zero :: Schedule where
  "Schedule_zero = \<lparr>Second = 0, Minute = 0, Hour = 0, Dom = 0, Month = 0, Dow = 0,
     RepeatHour = 0, RepeatMin = 0, RepeatDate = 0, Location = None\<rparr>"

text \<open>\<^verbatim>\<open>bounds\<close>: a nil \<^verbatim>\<open>names\<close> map is \<open>None\<close>.\<close>

record bounds =
  min_b :: int64
  max_b :: int64
  names :: "(string \<rightharpoonup> int64) option"

definition seconds :: bounds where
  "seconds = \<lparr>min_b = 0, max_b = 59, names = None\<rparr>"

definition minutes :: bounds where
  "minutes = \<lparr>min_b = 0, max_b = 59, names = None\<rparr>"

definition hours :: bounds where
  "hours = \<lparr>min_b = 0, max_b = 23, names = None\<rparr>"

definition dom_b :: bounds where
  "dom_b = \<lparr>min_b = 1, max_b = 31, names = None\<rparr>"

definition months :: bounds where
  "months = \<lparr>min_b = 1, max_b = 12, names = Some (map_of
     [(''jan'', 1), (''feb'', 2), (''mar'', 3), (''apr'', 4), (''may'', 5), (''jun'', 6),
      (''jul'', 7), (''aug'', 8), (''sep'', 9), (''oct'', 10), (''nov'', 11), (''dec'', 12)])\<rparr>"

definition dow :: bounds where
  "dow = \<lparr>min_b = 0, max_b = 6, names = Some (map_of
     [(''sun'', 0), (''mon'', 1), (''tue'', 2), (''wed'', 3), (''thu'', 4), (''fri'', 5),
      (''sat'', 6)])\<rparr>"

text \<open>\<^verbatim>\<open>starBit = 1 << 63\<close>, as the \<^verbatim>\<open>int64\<close> it is converted to.\<close>

definition starBit :: int64 where
  "starBit = push_bit 63 1"

text \<open>
  \<^verbatim>\<open>ParseOption\<close> is an \<^verbatim>\<open>int\<close> of bit flags, \<^verbatim>\<open>1 << iota\<close>. The option constants
  carry the suffix \<open>_opt\<close>, since Go keeps them apart from the fields of \<^verbatim>\<open>Schedule\<close>
  by their scope.
\<close>

type_synonym ParseOption = int64

definition Second_opt :: ParseOption where "Second_opt = 1"
definition Minute_opt :: ParseOption where "Minute_opt = 2"
definition Hour_opt :: ParseOption where "Hour_opt = 4"
definition Dom_opt :: ParseOption where "Dom_opt = 8"
definition Month_opt :: ParseOption where "Month_opt = 16"
definition Dow_opt :: ParseOption where "Dow_opt = 32"
definition DowOptional_opt :: ParseOption where "DowOptional_opt = 64"
definition Descriptor_opt :: ParseOption where "Descriptor_opt = 128"

definition places :: "ParseOption list" where
  "places = [Second_opt, Minute_opt, Hour_opt, Dom_opt, Month_opt, Dow_opt]"

definition defaults :: "string list" where
  "defaults = [''0'', ''0'', ''0'', ''*'', ''*'', ''*'']"

text \<open>
  \<^verbatim>\<open>Parser\<close>. The counts \<^verbatim>\<open>optionals\<close>, \<^verbatim>\<open>upperLimit\<close>, \<^verbatim>\<open>lowerLimit\<close> and
  \<^verbatim>\<open>len(fields)\<close> are integers: \<^verbatim>\<open>NewParser\<close> is the only constructor and sets
  \<^verbatim>\<open>optionals\<close> to 0 or 1, so no arithmetic on them leaves the range of \<^verbatim>\<open>int\<close>.
\<close>

record Parser =
  options :: ParseOption
  optionals :: int

section \<open>Errors and results\<close>

text \<open>
  The source builds its errors with \<^verbatim>\<open>fmt.Errorf\<close>; each constructor is one format
  string of the source with its arguments. \<open>RuntimePanic\<close> is not an error value: it
  stands for a run-time panic of Go (a negative shift count, an index out of range),
  which ends the call without a result.
\<close>

datatype NumError = ErrSyntax | ErrRange

datatype DurationError = DurationInvalid | DurationMissingUnit | DurationUnknownUnit string

datatype error =
    EmptySpec
  | FieldCountExact int int string
  | FieldCountRange int int int string
  | TooManyHyphens string
  | TooManySlashes string
  | IntParseFailure string NumError
  | NegativeNumber int64 string
  | RangeBelowMinimum int64 int64 string
  | RangeAboveMaximum int64 int64 string
  | RangeInverted int64 int64 string
  | NonPositiveStep string
  | InvalidDuration string DurationError
  | UnrecognizedDescriptor string
  | RuntimePanic

text \<open>
  A call returns \<open>Some (Inr v)\<close> (the value \<open>v\<close> and a nil error), \<open>Some (Inl e)\<close>
  (the error \<open>e\<close>, or the panic), or it does not return at all: \<open>None\<close>.
\<close>

type_synonym 'a result = "(error + 'a) option"

definition ok :: "'a \<Rightarrow> 'a result" where
  "ok v = Some (Inr v)"

definition err :: "error \<Rightarrow> 'a result" where
  "err e = Some (Inl e)"

definition bindR :: "'a result \<Rightarrow> ('a \<Rightarrow> 'b result) \<Rightarrow> 'b result" where
  "bindR m f = (case m of None \<Rightarrow> None | Some (Inl e) \<Rightarrow> Some (Inl e) | Some (Inr v) \<Rightarrow> f v)"

section \<open>The functions of Go's library that the parser calls\<close>

text \<open>\<^verbatim>\<open>strings.Split(s, sep)\<close> for a separator of one byte: never an empty list.\<close>

fun Split :: "string \<Rightarrow> char \<Rightarrow> string list" where
  "Split [] sep = [[]]"
| "Split (c # cs) sep =
     (if c = sep then [] # Split cs sep
      else (case Split cs sep of [] \<Rightarrow> [[c]] | p # ps \<Rightarrow> (c # p) # ps))"

text \<open>
  \<^verbatim>\<open>strings.FieldsFunc(s, f)\<close>: the maximal runs of characters that do not satisfy
  \<open>f\<close>; \<open>cur\<close> is the run being read, reversed. Go reads \<open>s\<close> rune by rune; the
  parser's \<open>f\<close> is "equals the comma", and the byte of the comma occurs in UTF-8 only
  as the comma itself, so reading byte by byte gives the same pieces.
\<close>

fun FieldsFunc_from :: "(char \<Rightarrow> bool) \<Rightarrow> string \<Rightarrow> string \<Rightarrow> string list" where
  "FieldsFunc_from f cur [] = (if cur = [] then [] else [rev cur])"
| "FieldsFunc_from f cur (c # cs) =
     (if f c then (if cur = [] then [] else [rev cur]) @ FieldsFunc_from f [] cs
      else FieldsFunc_from f (c # cur) cs)"

definition FieldsFunc :: "string \<Rightarrow> (char \<Rightarrow> bool) \<Rightarrow> string list" where
  "FieldsFunc s f = FieldsFunc_from f [] s"

text \<open>
  \<^verbatim>\<open>unicode.IsSpace\<close> on the UTF-8 encoding: \<open>spaceLen s\<close> is the number of bytes of
  the white space rune that \<open>s\<close> starts with, and 0 when it starts with none. The runes
  are U+0009 to U+000D, U+0020, U+0085, U+00A0, U+1680, U+2000 to U+200A, U+2028,
  U+2029, U+202F, U+205F and U+3000.
\<close>

definition spaceLen :: "string \<Rightarrow> nat" where
  "spaceLen s =
     (case s of
        [] \<Rightarrow> 0
      | c # cs \<Rightarrow>
          if c \<in> {CHR 0x09, CHR 0x0A, CHR 0x0B, CHR 0x0C, CHR 0x0D, CHR 0x20} then 1
          else if c = CHR 0xC2 \<and> (take 1 cs = [CHR 0x85] \<or> take 1 cs = [CHR 0xA0]) then 2
          else if c = CHR 0xE1 \<and> take 2 cs = [CHR 0x9A, CHR 0x80] then 3
          else if c = CHR 0xE2 \<and> (case take 2 cs of
                   [a, b] \<Rightarrow> (a = CHR 0x80 \<and>
                       (of_char b \<in> {0x80 .. (0x8A::int)} \<or> b \<in> {CHR 0xA8, CHR 0xA9, CHR 0xAF}))
                     \<or> (a = CHR 0x81 \<and> b = CHR 0x9F)
                 | _ \<Rightarrow> False) then 3
          else if c = CHR 0xE3 \<and> take 2 cs = [CHR 0x80, CHR 0x80] then 3
          else 0)"

text \<open>
  \<^verbatim>\<open>strings.Fields(s)\<close>: the maximal runs of \<open>s\<close> without white space. \<open>skip\<close>
  counts the bytes still to drop of a white space rune of several bytes.
\<close>

fun Fields_from :: "nat \<Rightarrow> string \<Rightarrow> string \<Rightarrow> string list" where
  "Fields_from skip cur [] = (if cur = [] then [] else [rev cur])"
| "Fields_from (Suc skip) cur (c # cs) = Fields_from skip cur cs"
| "Fields_from 0 cur (c # cs) =
     (if 0 < spaceLen (c # cs)
      then (if cur = [] then [] else [rev cur]) @ Fields_from (spaceLen (c # cs) - 1) [] cs
      else Fields_from 0 (c # cur) cs)"

definition Fields :: "string \<Rightarrow> string list" where
  "Fields s = Fields_from 0 [] s"

text \<open>
  \<^verbatim>\<open>strings.ToLower\<close>. In a string of ASCII bytes the letters A to Z become a to z.
  A string with a byte above 0x7F is mapped rune by rune with \<^verbatim>\<open>unicode.ToLower\<close>, which
  also turns A to Z into a to z. Two runes above U+007F have an ASCII letter as their
  lower case: U+0130, the capital I with a dot above (bytes C4 B0), becomes \<open>i\<close>, and
  U+212A, the Kelvin sign (bytes E2 84 AA), becomes \<open>k\<close>. Every other rune above U+007F
  is mapped to a rune above U+007F, and a byte that is not valid UTF-8 to U+FFFD; the
  model keeps those bytes as they are. So the model gives Go's result whenever that
  result is ASCII, and a string with a byte above 0x7F whenever Go's result has one:
  the look-up in a table of names, whose keys are ASCII, is the one of Go. The bytes
  C4 and E2 only occur in UTF-8 as the first byte of a rune, so the two runes are found
  by reading byte by byte; \<open>skip\<close> counts the bytes still to drop of a rune that has
  been replaced.
\<close>

definition toLower_char :: "char \<Rightarrow> char" where
  "toLower_char c =
     (if 65 \<le> (of_char c :: int) \<and> (of_char c :: int) \<le> 90
      then char_of (of_char c + (32::int)) else c)"

fun ToLower_from :: "nat \<Rightarrow> string \<Rightarrow> string" where
  "ToLower_from skip [] = []"
| "ToLower_from (Suc skip) (c # cs) = ToLower_from skip cs"
| "ToLower_from 0 (c # cs) =
     (if c = CHR 0xC4 \<and> take 1 cs = [CHR 0xB0] then CHR ''i'' # ToLower_from 1 cs
      else if c = CHR 0xE2 \<and> take 2 cs = [CHR 0x84, CHR 0xAA] then CHR ''k'' # ToLower_from 2 cs
      else toLower_char c # ToLower_from 0 cs)"

definition ToLower :: "string \<Rightarrow> string" where
  "ToLower s = ToLower_from 0 s"

definition HasPrefix :: "string \<Rightarrow> string \<Rightarrow> bool" where
  "HasPrefix s prefix = (take (length prefix) s = prefix)"

text \<open>
  \<^verbatim>\<open>strconv.Atoi\<close> reads an optional sign and decimal digits. \<^verbatim>\<open>uint64\<close> is a 64-bit
  word whose order \<open><\<close> is the unsigned one.
\<close>

type_synonym uint64 = "64 word"

definition isDigit :: "char \<Rightarrow> bool" where
  "isDigit c = (48 \<le> (of_char c :: int) \<and> (of_char c :: int) \<le> 57)"

definition digitVal :: "char \<Rightarrow> int" where
  "digitVal c = of_char c - 48"

definition decimal :: "string \<Rightarrow> int" where
  "decimal ds = foldl (\<lambda>n c. n * 10 + digitVal c) 0 ds"

text \<open>
  The loop of \<^verbatim>\<open>strconv.ParseUint(s, 10, 64)\<close>, which reads \<open>s\<close> from the left and
  stops at the first byte that is not a digit (\<open>ErrSyntax\<close>) or at the first digit
  that takes the number out of 64 bits (\<open>ErrRange\<close>), whichever comes first. The
  cutoff is \<^verbatim>\<open>maxUint64/10 + 1\<close>.
\<close>

fun ParseUint_from :: "uint64 \<Rightarrow> string \<Rightarrow> NumError + uint64" where
  "ParseUint_from n [] = Inr n"
| "ParseUint_from n (c # cs) =
     (if \<not> isDigit c then Inl ErrSyntax
      else if 1844674407370955162 \<le> n then Inl ErrRange
      else if n * 10 + word_of_int (digitVal c) < n * 10 then Inl ErrRange
      else ParseUint_from (n * 10 + word_of_int (digitVal c)) cs)"

definition ParseUint :: "string \<Rightarrow> NumError + uint64" where
  "ParseUint s = (if s = [] then Inl ErrSyntax else ParseUint_from 0 s)"

text \<open>
  \<^verbatim>\<open>strconv.ParseInt(s, 10, 0)\<close>: the sign, then \<^verbatim>\<open>ParseUint\<close>, then the range of
  \<^verbatim>\<open>int\<close>. After an \<open>ErrRange\<close> of \<^verbatim>\<open>ParseUint\<close> the number is \<^verbatim>\<open>maxUint64\<close>, which
  is out of range with either sign.
\<close>

definition ParseInt :: "string \<Rightarrow> NumError + int64" where
  "ParseInt s =
     (if s = [] then Inl ErrSyntax
      else let neg = (take 1 s = ''-'');
               s1 = (if take 1 s = ''+'' \<or> take 1 s = ''-'' then drop 1 s else s)
           in case ParseUint s1 of
                Inl e \<Rightarrow> Inl e
              | Inr un \<Rightarrow>
                  if \<not> neg \<and> 2 ^ 63 \<le> un then Inl ErrRange
                  else if neg \<and> 2 ^ 63 < un then Inl ErrRange
                  else Inr (if neg then - un else un))"

text \<open>
  \<^verbatim>\<open>strconv.Atoi\<close>: a text of 1 to 18 bytes is read by a loop of its own,
  \<^verbatim>\<open>n = n*10 + int(ch)\<close>, which cannot leave the range of \<^verbatim>\<open>int\<close> with so few digits
  (\<open>decimal\<close> is that number); every other text goes to \<^verbatim>\<open>ParseInt\<close>.
\<close>

definition Atoi :: "string \<Rightarrow> NumError + int64" where
  "Atoi s =
     (if 0 < length s \<and> length s < 19
      then let s1 = (if take 1 s = ''-'' \<or> take 1 s = ''+'' then drop 1 s else s)
           in if s1 = [] then Inl ErrSyntax
              else if \<not> list_all isDigit s1 then Inl ErrSyntax
              else Inr (if take 1 s = ''-'' then - word_of_int (decimal s1)
                        else word_of_int (decimal s1))
      else ParseInt s)"

section \<open>Bit sets of a range\<close>

text \<open>
  Go's \<^verbatim>\<open>x << n\<close> with a signed count: a negative count panics, a count of 64 or more
  gives 0 (\<open>push_bit\<close> on a word does the same).
\<close>

definition shl :: "int64 \<Rightarrow> int64 \<Rightarrow> error + int64" where
  "shl x n = (if n <s 0 then Inl RuntimePanic else Inr (push_bit (unat n) x))"

text \<open>
  The loop of \<^verbatim>\<open>getBits\<close>:
  \<^verbatim>\<open>for i := lowerLimit; i <= upperLimit; i += step { bits |= 1 << i }\<close>.
  With \<open>step = 0\<close> it never ends.
\<close>

partial_function (option) getBits_loop :: "int64 \<Rightarrow> int64 \<Rightarrow> int64 \<Rightarrow> int64 \<Rightarrow> int64 result"
  where
  "getBits_loop upperLimit step i bits =
     (if i \<le>s upperLimit
      then (case shl 1 i of
              Inl e \<Rightarrow> Some (Inl e)
            | Inr b \<Rightarrow> getBits_loop upperLimit step (i + step) (bits OR b))
      else Some (Inr bits))"

declare getBits_loop.simps [code]

definition getBits :: "int64 \<Rightarrow> int64 \<Rightarrow> int64 \<Rightarrow> int64 result" where
  "getBits lowerLimit upperLimit step =
     (if step = 1
      then bindR (Some (shl (- 1) (upperLimit + 1))) (\<lambda>hi.
           bindR (Some (shl (- 1) lowerLimit)) (\<lambda>lo.
           ok (NOT hi AND lo)))
      else getBits_loop upperLimit step lowerLimit 0)"

definition all :: "bounds \<Rightarrow> int64 result" where
  "all r = bindR (getBits (min_b r) (max_b r) 1) (\<lambda>bits. ok (bits OR starBit))"

section \<open>Ranges and fields\<close>

definition mustParseInt :: "string \<Rightarrow> error + int64" where
  "mustParseInt expr =
     (case Atoi expr of
        Inl e \<Rightarrow> Inl (IntParseFailure expr e)
      | Inr num \<Rightarrow> if num <s 0 then Inl (NegativeNumber num expr) else Inr num)"

definition parseIntOrName :: "string \<Rightarrow> (string \<rightharpoonup> int64) option \<Rightarrow> error + int64" where
  "parseIntOrName expr nms =
     (case nms of
        None \<Rightarrow> mustParseInt expr
      | Some m \<Rightarrow> (case m (ToLower expr) of
                    Some namedInt \<Rightarrow> Inr namedInt
                  | None \<Rightarrow> mustParseInt expr))"

text \<open>
  \<^verbatim>\<open>getRange\<close>, in the order of the source: the range (start, end and the star
  bit), then the step, then the four checks, then the bits.
\<close>

definition getRange :: "string \<Rightarrow> bounds \<Rightarrow> int64 result" where
  "getRange expr r =
     (let rangeAndStep = Split expr CHR ''/'';
          lowAndHigh = Split (case rangeAndStep of [] \<Rightarrow> [] | x # _ \<Rightarrow> x) CHR ''-'';
          low = (case lowAndHigh of [] \<Rightarrow> [] | x # _ \<Rightarrow> x);
          singleDigit = (length lowAndHigh = 1)
      in bindR
           (if low = ''*'' \<or> low = ''?'' then ok (min_b r, max_b r, starBit)
            else bindR (Some (parseIntOrName low (names r))) (\<lambda>start.
                 case lowAndHigh of
                   [_] \<Rightarrow> ok (start, start, 0)
                 | [_, high] \<Rightarrow>
                     bindR (Some (parseIntOrName high (names r))) (\<lambda>end. ok (start, end, 0))
                 | _ \<Rightarrow> err (TooManyHyphens expr)))
           (\<lambda>(start, end0, extra).
      bindR
           (case rangeAndStep of
              [_] \<Rightarrow> ok (1, end0)
            | [_, stepText] \<Rightarrow>
                bindR (Some (mustParseInt stepText)) (\<lambda>step.
                ok (step, if singleDigit then max_b r else end0))
            | _ \<Rightarrow> err (TooManySlashes expr))
           (\<lambda>(step, end).
      if start <s min_b r then err (RangeBelowMinimum start (min_b r) expr)
      else if max_b r <s end then err (RangeAboveMaximum end (max_b r) expr)
      else if end <s start then err (RangeInverted start end expr)
      else if step = 0 then err (NonPositiveStep expr)
      else bindR (getBits start end step) (\<lambda>bits. ok (bits OR extra)))))"

text \<open>
  \<^verbatim>\<open>getField\<close>. On an error Go returns the bits gathered so far next to the error;
  \<^verbatim>\<open>Parse\<close>, the only caller, drops them, and so does the model.
\<close>

fun getField_loop :: "string list \<Rightarrow> bounds \<Rightarrow> int64 \<Rightarrow> int64 result" where
  "getField_loop [] r bits = ok bits"
| "getField_loop (expr # ranges) r bits =
     bindR (getRange expr r) (\<lambda>bit. getField_loop ranges r (bits OR bit))"

definition getField :: "string \<Rightarrow> bounds \<Rightarrow> int64 result" where
  "getField field r = getField_loop (FieldsFunc field (\<lambda>c. c = CHR '','')) r 0"

section \<open>The parser\<close>

definition NewParser :: "ParseOption \<Rightarrow> Parser" where
  "NewParser opts =
     (if 0 <s (opts AND DowOptional_opt)
      then \<lparr>options = opts OR Dow_opt, optionals = 1\<rparr>
      else \<lparr>options = opts, optionals = 0\<rparr>)"

text \<open>
  \<^verbatim>\<open>expandFields\<close>: the loop over \<^verbatim>\<open>places\<close>, \<open>i\<close> the index of \<open>place\<close> and \<open>n\<close>
  the number of fields placed so far. \<^verbatim>\<open>fields[n]\<close> panics when \<open>n\<close> is not below
  \<^verbatim>\<open>len(fields)\<close>.
\<close>

fun expandFields_loop ::
  "string list \<Rightarrow> ParseOption \<Rightarrow> nat \<Rightarrow> ParseOption list \<Rightarrow> nat \<Rightarrow> string list \<Rightarrow> string list result"
  where
  "expandFields_loop flds opts i [] n expFields = ok expFields"
| "expandFields_loop flds opts i (place # rest) n expFields =
     (if 0 <s (opts AND place)
      then (if n < length flds
            then (if n + 1 = length flds then ok (expFields[i := flds ! n])
                  else expandFields_loop flds opts (i + 1) rest (n + 1)
                         (expFields[i := flds ! n]))
            else err RuntimePanic)
      else (if n = length flds then ok expFields
            else expandFields_loop flds opts (i + 1) rest n expFields))"

definition expandFields :: "string list \<Rightarrow> ParseOption \<Rightarrow> string list result" where
  "expandFields flds opts = expandFields_loop flds opts 0 places 0 defaults"

section \<open>Durations: Go's \<^verbatim>\<open>time\<close> and \<^verbatim>\<open>math\<close> packages\<close>

subsection \<open>\<^verbatim>\<open>float64\<close>\<close>

text \<open>
  A finite \<^verbatim>\<open>float64\<close> is modelled by the rational number it denotes. An operation
  of IEEE 754 returns the exact result rounded to the nearest number with a significand
  of 53 bits, ties to the even significand: \<open>round_f64\<close>. The exponent is not bounded
  in the model; the values that occur here are 0 or have a magnitude between
  \<open>2 ^ - 64\<close> and \<open>2 ^ 64\<close>, far inside the normal range of \<^verbatim>\<open>float64\<close>.
\<close>

function bitlen :: "int \<Rightarrow> nat" where
  "bitlen n = (if n \<le> 0 then 0 else Suc (bitlen (n div 2)))"
  by pat_completeness auto
termination
  by (relation "measure nat") auto

declare bitlen.simps [simp del]

text \<open>For \<open>0 < a\<close>, \<open>floor_log2 a\<close> is the \<open>e\<close> with \<open>2 ^ e \<le> a < 2 ^ (e + 1)\<close>.\<close>

definition floor_log2 :: "rat \<Rightarrow> int" where
  "floor_log2 a =
     (if 1 \<le> a then int (bitlen \<lfloor>a\<rfloor>) - 1 else - int (bitlen (\<lceil>1 / a\<rceil> - 1)))"

definition pow2 :: "int \<Rightarrow> rat" where
  "pow2 e = (if 0 \<le> e then 2 ^ nat e else 1 / 2 ^ nat (- e))"

definition round_half_even :: "rat \<Rightarrow> int" where
  "round_half_even m =
     (let fl = \<lfloor>m\<rfloor>; fr = m - of_int fl
      in if fr < 1 / 2 then fl
         else if 1 / 2 < fr then fl + 1
         else if even fl then fl else fl + 1)"

definition round_f64 :: "rat \<Rightarrow> rat" where
  "round_f64 x =
     (if x = 0 then 0
      else let e = floor_log2 \<bar>x\<bar> - 52
           in sgn x * of_int (round_half_even (\<bar>x\<bar> / pow2 e)) * pow2 e)"

definition f64_of_int :: "int \<Rightarrow> rat" where
  "f64_of_int n = round_f64 (of_int n)"

definition f64_add :: "rat \<Rightarrow> rat \<Rightarrow> rat" where
  "f64_add a b = round_f64 (a + b)"

definition f64_mul :: "rat \<Rightarrow> rat \<Rightarrow> rat" where
  "f64_mul a b = round_f64 (a * b)"

definition f64_div :: "rat \<Rightarrow> rat \<Rightarrow> rat" where
  "f64_div a b = round_f64 (a / b)"

text \<open>
  \<^verbatim>\<open>int64(math.Ceil(x))\<close>: the ceiling is exact, and the conversion of an integral
  \<^verbatim>\<open>float64\<close> inside the range of \<^verbatim>\<open>int64\<close> keeps its value.
\<close>

definition int64_Ceil :: "rat \<Rightarrow> int64" where
  "int64_Ceil x = word_of_int \<lceil>x\<rceil>"

subsection \<open>\<^verbatim>\<open>time.Duration\<close>\<close>

text \<open>
  A \<^verbatim>\<open>Duration\<close> is an \<^verbatim>\<open>int64\<close> of nanoseconds. \<^verbatim>\<open>Minutes\<close> and \<^verbatim>\<open>Hours\<close> divide
  with Go's truncating \<^verbatim>\<open>/\<close> and \<^verbatim>\<open>%\<close> (\<open>sdiv\<close>, \<open>smod\<close>), and add the remainder as
  a fraction: \<^verbatim>\<open>float64(min) + float64(nsec)/(60*1e9)\<close>.
\<close>

definition time_Minute :: int64 where
  "time_Minute = 60000000000"

definition time_Hour :: int64 where
  "time_Hour = 3600000000000"

definition Duration_Minutes :: "int64 \<Rightarrow> rat" where
  "Duration_Minutes d =
     f64_add (f64_of_int (sint d sdiv 60000000000))
             (f64_div (f64_of_int (sint d smod 60000000000)) 60000000000)"

definition Duration_Hours :: "int64 \<Rightarrow> rat" where
  "Duration_Hours d =
     f64_add (f64_of_int (sint d sdiv 3600000000000))
             (f64_div (f64_of_int (sint d smod 3600000000000)) 3600000000000)"

subsection \<open>\<^verbatim>\<open>time.ParseDuration\<close>\<close>

text \<open>
  \<^verbatim>\<open>ParseDuration\<close> reads \<^verbatim>\<open>[-+]?([0-9]*(\.[0-9]*)?[a-z]+)+\<close>. The model follows
  the function of the recent releases of Go, which counts in \<^verbatim>\<open>uint64\<close> and reads a
  fraction through \<^verbatim>\<open>float64\<close>. The
  two spellings of the micro sign are the UTF-8 bytes of U+00B5 and of U+03BC.
\<close>

definition unitMap :: "string \<rightharpoonup> uint64" where
  "unitMap = map_of
     [(''ns'', 1),
      (''us'', 1000),
      ([CHR 0xC2, CHR 0xB5, CHR ''s''], 1000),
      ([CHR 0xCE, CHR 0xBC, CHR ''s''], 1000),
      (''ms'', 1000000),
      (''s'', 1000000000),
      (''m'', 60000000000),
      (''h'', 3600000000000)]"

text \<open>\<^verbatim>\<open>leadingInt\<close>: the leading digits of \<open>s\<close> as a number; \<open>None\<close> on overflow.\<close>

fun leadingInt_from :: "uint64 \<Rightarrow> string \<Rightarrow> (uint64 \<times> string) option" where
  "leadingInt_from x [] = Some (x, [])"
| "leadingInt_from x (c # cs) =
     (if \<not> isDigit c then Some (x, c # cs)
      else if 922337203685477580 < x then None
      else if 2 ^ 63 < x * 10 + word_of_int (digitVal c) then None
      else leadingInt_from (x * 10 + word_of_int (digitVal c)) cs)"

definition leadingInt :: "string \<Rightarrow> (uint64 \<times> string) option" where
  "leadingInt s = leadingInt_from 0 s"

text \<open>
  \<^verbatim>\<open>leadingFraction\<close>: the leading digits of \<open>s\<close> as a numerator \<open>x\<close> and a power of
  ten \<open>scale\<close>; digits beyond the precision of \<^verbatim>\<open>uint64\<close> are read and dropped.
\<close>

fun leadingFraction_from :: "uint64 \<Rightarrow> rat \<Rightarrow> bool \<Rightarrow> string \<Rightarrow> uint64 \<times> rat \<times> string" where
  "leadingFraction_from x scale overflow [] = (x, scale, [])"
| "leadingFraction_from x scale overflow (c # cs) =
     (if \<not> isDigit c then (x, scale, c # cs)
      else if overflow then leadingFraction_from x scale overflow cs
      else if 922337203685477580 < x then leadingFraction_from x scale True cs
      else if 2 ^ 63 < x * 10 + word_of_int (digitVal c)
           then leadingFraction_from x scale True cs
      else leadingFraction_from (x * 10 + word_of_int (digitVal c)) (f64_mul scale 10)
             overflow cs)"

definition leadingFraction :: "string \<Rightarrow> uint64 \<times> rat \<times> string" where
  "leadingFraction s = leadingFraction_from 0 1 False s"

text \<open>
  One round of the loop of \<^verbatim>\<open>ParseDuration\<close>: a number, an optional fraction and a
  unit at the head of \<open>s\<close>. It returns the nanoseconds and the rest of \<open>s\<close>.
\<close>

definition isDigitOrDot :: "char \<Rightarrow> bool" where
  "isDigitOrDot c = (c = CHR ''.'' \<or> isDigit c)"

definition durationTerm :: "string \<Rightarrow> DurationError + (uint64 \<times> string)" where
  "durationTerm s =
     (if \<not> list_all isDigitOrDot (take 1 s) then Inl DurationInvalid
      else case leadingInt s of
        None \<Rightarrow> Inl DurationInvalid
      | Some (v, s1) \<Rightarrow>
          let pre = (length s \<noteq> length s1);
              hasDot = (take 1 s1 = ''.'');
              (f, scale, s2) = (if hasDot then leadingFraction (drop 1 s1) else (0, 1, s1));
              post = (hasDot \<and> length (drop 1 s1) \<noteq> length s2);
              u = takeWhile (\<lambda>c. \<not> isDigitOrDot c) s2;
              s3 = dropWhile (\<lambda>c. \<not> isDigitOrDot c) s2
          in if \<not> pre \<and> \<not> post then Inl DurationInvalid
             else if u = [] then Inl DurationMissingUnit
             else (case unitMap u of
               None \<Rightarrow> Inl (DurationUnknownUnit u)
             | Some unit \<Rightarrow>
                 if 2 ^ 63 div unit < v then Inl DurationInvalid
                 else let v1 = v * unit;
                          v2 = (if 0 < f
                                then v1 + word_of_int \<lfloor>f64_mul (f64_of_int (uint f))
                                            (f64_div (f64_of_int (uint unit)) scale)\<rfloor>
                                else v1)
                      in if 0 < f \<and> 2 ^ 63 < v2 then Inl DurationInvalid
                         else Inr (v2, s3)))"

partial_function (option) ParseDuration_loop :: "uint64 \<Rightarrow> string \<Rightarrow> (DurationError + uint64) option"
  where
  "ParseDuration_loop d s =
     (if s = [] then Some (Inr d)
      else case durationTerm s of
        Inl e \<Rightarrow> Some (Inl e)
      | Inr (v, rest) \<Rightarrow>
          if 2 ^ 63 < d + v then Some (Inl DurationInvalid)
          else ParseDuration_loop (d + v) rest)"

declare ParseDuration_loop.simps [code]

definition ParseDuration :: "string \<Rightarrow> (DurationError + int64) option" where
  "ParseDuration orig =
     (let neg = (take 1 orig = ''-'');
          s = (if take 1 orig = ''-'' \<or> take 1 orig = ''+'' then drop 1 orig else orig)
      in if s = ''0'' then Some (Inr 0)
         else if s = [] then Some (Inl DurationInvalid)
         else case ParseDuration_loop 0 s of
           None \<Rightarrow> None
         | Some (Inl e) \<Rightarrow> Some (Inl e)
         | Some (Inr d) \<Rightarrow>
             if neg then Some (Inr (- d))
             else if 2 ^ 63 - 1 < d then Some (Inl DurationInvalid)
             else Some (Inr d))"

section \<open>Descriptors\<close>

text \<open>\<^verbatim>\<open>1 << r.min\<close>, a shift by the minimum of a field.\<close>

definition minBit :: "bounds \<Rightarrow> int64 result" where
  "minBit r = Some (shl 1 (min_b r))"

definition parseDescriptor :: "string \<Rightarrow> Schedule result" where
  "parseDescriptor descriptor =
     (if descriptor = ''@yearly'' \<or> descriptor = ''@annually'' then
        bindR (minBit seconds) (\<lambda>second. bindR (minBit minutes) (\<lambda>minute.
        bindR (minBit hours) (\<lambda>hour. bindR (minBit dom_b) (\<lambda>dayofmonth.
        bindR (minBit months) (\<lambda>month. bindR (all dow) (\<lambda>dayofweek.
        ok (Schedule_zero\<lparr>Second := second, Minute := minute, Hour := hour,
              Dom := dayofmonth, Month := month, Dow := dayofweek, RepeatDate := 1001\<rparr>)))))))
      else if descriptor = ''@monthly'' then
        bindR (minBit seconds) (\<lambda>second. bindR (minBit minutes) (\<lambda>minute.
        bindR (minBit hours) (\<lambda>hour. bindR (minBit dom_b) (\<lambda>dayofmonth.
        bindR (all months) (\<lambda>month. bindR (all dow) (\<lambda>dayofweek.
        ok (Schedule_zero\<lparr>Second := second, Minute := minute, Hour := hour,
              Dom := dayofmonth, Month := month, Dow := dayofweek, RepeatDate := 1001\<rparr>)))))))
      else if descriptor = ''@weekly'' then
        bindR (minBit seconds) (\<lambda>second. bindR (minBit minutes) (\<lambda>minute.
        bindR (minBit hours) (\<lambda>hour. bindR (all dom_b) (\<lambda>dayofmonth.
        bindR (all months) (\<lambda>month. bindR (minBit dow) (\<lambda>dayofweek.
        ok (Schedule_zero\<lparr>Second := second, Minute := minute, Hour := hour,
              Dom := dayofmonth, Month := month, Dow := dayofweek, RepeatDate := 1001\<rparr>)))))))
      else if descriptor = ''@daily'' \<or> descriptor = ''@midnight'' then
        bindR (minBit seconds) (\<lambda>second. bindR (minBit minutes) (\<lambda>minute.
        bindR (minBit hours) (\<lambda>hour. bindR (all dom_b) (\<lambda>dayofmonth.
        bindR (all months) (\<lambda>month. bindR (all dow) (\<lambda>dayofweek.
        ok (Schedule_zero\<lparr>Second := second, Minute := minute, Hour := hour,
              Dom := dayofmonth, Month := month, Dow := dayofweek, RepeatDate := 1001\<rparr>)))))))
      else if descriptor = ''@hourly'' then
        bindR (minBit seconds) (\<lambda>second. bindR (minBit minutes) (\<lambda>minute.
        bindR (all hours) (\<lambda>hour. bindR (all dom_b) (\<lambda>dayofmonth.
        bindR (all months) (\<lambda>month. bindR (all dow) (\<lambda>dayofweek.
        ok (Schedule_zero\<lparr>Second := second, Minute := minute, Hour := hour,
              Dom := dayofmonth, Month := month, Dow := dayofweek, RepeatDate := 1001\<rparr>)))))))
      else if HasPrefix descriptor ''@every '' then
        (case ParseDuration (drop (length ''@every '') descriptor) of
           None \<Rightarrow> None
         | Some (Inl e) \<Rightarrow> err (InvalidDuration descriptor e)
         | Some (Inr duration) \<Rightarrow>
             if duration <s time_Hour then
               ok (Schedule_zero\<lparr>RepeatMin := int64_Ceil (Duration_Minutes duration)\<rparr>)
             else if duration <s time_Hour * 24 then
               ok (Schedule_zero\<lparr>RepeatHour := int64_Ceil (Duration_Hours duration)\<rparr>)
             else
               ok (Schedule_zero\<lparr>RepeatDate :=
                     int64_Ceil (f64_div (Duration_Hours duration) 24)\<rparr>))
      else err (UnrecognizedDescriptor descriptor))"

section \<open>\<^verbatim>\<open>Parse\<close>\<close>

text \<open>
  \<^verbatim>\<open>Parser.Parse\<close>. The closure \<^verbatim>\<open>field\<close> skips every field after the first error,
  and \<^verbatim>\<open>Parse\<close> then returns that error: the fields are bound in their order.
\<close>

definition Parser_Parse :: "Parser \<Rightarrow> string \<Rightarrow> Schedule result" where
  "Parser_Parse p spec =
     (if length spec = 0 then err EmptySpec
      else if take 1 spec = ''@'' \<and> 0 <s (options p AND Descriptor_opt) then parseDescriptor spec
      else
        let upperLimit = int (length (filter (\<lambda>place. 0 <s (options p AND place)) places));
            lowerLimit = upperLimit - optionals p;
            flds = Fields spec;
            count = int (length flds)
        in if count < lowerLimit \<or> upperLimit < count
           then (if lowerLimit = upperLimit then err (FieldCountExact lowerLimit count spec)
                 else err (FieldCountRange lowerLimit upperLimit count spec))
           else bindR (expandFields flds (options p)) (\<lambda>expFields.
                case expFields of
                  [f0, f1, f2, f3, f4, f5] \<Rightarrow>
                    bindR (getField f0 seconds) (\<lambda>second.
                    bindR (getField f1 minutes) (\<lambda>minute.
                    bindR (getField f2 hours) (\<lambda>hour.
                    bindR (getField f3 dom_b) (\<lambda>dayofmonth.
                    bindR (getField f4 months) (\<lambda>month.
                    bindR (getField f5 dow) (\<lambda>dayofweek.
                    ok (Schedule_zero\<lparr>Second := second, Minute := minute, Hour := hour,
                          Dom := dayofmonth, Month := month, Dow := dayofweek\<rparr>)))))))
                | _ \<Rightarrow> err RuntimePanic))"

definition standardParser :: Parser where
  "standardParser =
     NewParser (Minute_opt OR Hour_opt OR Dom_opt OR Month_opt OR Dow_opt OR Descriptor_opt)"

definition ParseStandard :: "string \<Rightarrow> Schedule result" where
  "ParseStandard standardSpec = Parser_Parse standardParser standardSpec"

definition defaultParser :: Parser where
  "defaultParser =
     NewParser (Second_opt OR Minute_opt OR Hour_opt OR Dom_opt OR Month_opt
                OR DowOptional_opt OR Descriptor_opt)"

definition Parse :: "string \<Rightarrow> Schedule result" where
  "Parse spec = Parser_Parse defaultParser spec"

section \<open>Reference definitions\<close>

text \<open>
  The naive construction of the mask of a range: every bit from \<open>lo\<close> to \<open>hi\<close> is
  set, one at a time.
\<close>

definition naiveBits :: "nat \<Rightarrow> nat \<Rightarrow> int64" where
  "naiveBits lo hi = fold (\<lambda>i bits. bits OR push_bit i 1) [lo ..< Suc hi] 0"

text \<open>
  The four checks of \<^verbatim>\<open>getRange\<close> and its result, for a range that has been read
  as \<open>start\<close>, \<open>end\<close>, \<open>step\<close> and the star bit \<open>extra\<close>.
\<close>

definition rangeResult :: "string \<Rightarrow> bounds \<Rightarrow> int64 \<Rightarrow> int64 \<Rightarrow> int64 \<Rightarrow> int64 \<Rightarrow> int64 result" where
  "rangeResult expr r start end step extra =
     (if start <s min_b r then err (RangeBelowMinimum start (min_b r) expr)
      else if max_b r <s end then err (RangeAboveMaximum end (max_b r) expr)
      else if end <s start then err (RangeInverted start end expr)
      else if step = 0 then err (NonPositiveStep expr)
      else bindR (getBits start end step) (\<lambda>bits. ok (bits OR extra)))"

text \<open>
  The canonical layout in the words of the specification: the slots are walked in
  their fixed order, an enabled slot takes the next provided field while one is left,
  and every other slot keeps its default.
\<close>

fun fillSlots :: "(ParseOption \<times> string) list \<Rightarrow> ParseOption \<Rightarrow> string list \<Rightarrow> string list" where
  "fillSlots [] opts flds = []"
| "fillSlots ((place, dflt) # slots) opts flds =
     (case flds of
        [] \<Rightarrow> dflt # fillSlots slots opts []
      | f # rest \<Rightarrow>
          if 0 <s (opts AND place) then f # fillSlots slots opts rest
          else dflt # fillSlots slots opts flds)"

definition canonicalLayout :: "ParseOption \<Rightarrow> string list \<Rightarrow> string list" where
  "canonicalLayout opts flds = fillSlots (zip places defaults) opts flds"

text \<open>
  The table of the named descriptors in the words of the specification: "min-bit" is
  the bit of the minimum of the field, "all" is the mask of the whole range of the field
  with the star bit, and every row carries the repeat-date marker 1001.
\<close>

definition specMin :: "bounds \<Rightarrow> int64" where
  "specMin r = push_bit (unat (min_b r)) 1"

definition specAll :: "bounds \<Rightarrow> int64" where
  "specAll r = naiveBits (unat (min_b r)) (unat (max_b r)) OR starBit"

definition specRow :: "int64 \<Rightarrow> int64 \<Rightarrow> int64 \<Rightarrow> int64 \<Rightarrow> int64 \<Rightarrow> int64 \<Rightarrow> Schedule" where
  "specRow s m h d mo w =
     \<lparr>Second = s, Minute = m, Hour = h, Dom = d, Month = mo, Dow = w,
      RepeatHour = 0, RepeatMin = 0, RepeatDate = 1001, Location = None\<rparr>"

text \<open>
  The two kinds of schedule in the words of the specification: a field schedule has its
  six bitmasks populated and its three repeat fields zero; an interval schedule has
  exactly one repeat field populated and its six bitmasks zero.
\<close>

definition bitmasksZero :: "Schedule \<Rightarrow> bool" where
  "bitmasksZero s = (Second s = 0 \<and> Minute s = 0 \<and> Hour s = 0 \<and> Dom s = 0 \<and> Month s = 0 \<and> Dow s = 0)"

definition bitmasksPopulated :: "Schedule \<Rightarrow> bool" where
  "bitmasksPopulated s =
     (Second s \<noteq> 0 \<and> Minute s \<noteq> 0 \<and> Hour s \<noteq> 0 \<and> Dom s \<noteq> 0 \<and> Month s \<noteq> 0 \<and> Dow s \<noteq> 0)"

definition repeatsZero :: "Schedule \<Rightarrow> bool" where
  "repeatsZero s = (RepeatHour s = 0 \<and> RepeatMin s = 0 \<and> RepeatDate s = 0)"

definition repeatCount :: "Schedule \<Rightarrow> nat" where
  "repeatCount s = length (filter (\<lambda>v. v \<noteq> 0) [RepeatHour s, RepeatMin s, RepeatDate s])"

definition fieldSchedule :: "Schedule \<Rightarrow> bool" where
  "fieldSchedule s = (bitmasksPopulated s \<and> repeatsZero s)"

definition intervalSchedule :: "Schedule \<Rightarrow> bool" where
  "intervalSchedule s = (repeatCount s = 1 \<and> bitmasksZero s)"

definition namedDescriptors :: "string list" where
  "namedDescriptors = [''@yearly'', ''@annually'', ''@monthly'', ''@weekly'', ''@daily'',
     ''@midnight'', ''@hourly'']"

section \<open>Signed 64-bit arithmetic\<close>

lemma sint_cases: "sint (x::int64) = uint x \<or> sint x = uint x - 2 ^ 64"
proof -
  have hi: "uint x < 2 ^ 64" using uint_lt2p [of x] by simp
  have "take_bit 64 (uint x) = uint x" using hi by (simp add: take_bit_int_eq_self)
  then have "sint x = uint x - 2 ^ 64 * of_bool (bit (uint x) 63)"
    by (simp add: sint_uint signed_take_bit_eq_take_bit_minus)
  then show ?thesis by (cases "bit (uint x) 63") simp_all
qed

lemma uint_sint_nonneg: "0 \<le> sint (x::int64) \<Longrightarrow> uint x = sint x"
  using sint_cases [of x] uint_lt2p [of x] by auto

lemma unat_sint_nonneg: "0 \<le> sint (x::int64) \<Longrightarrow> unat x = nat (sint x)"
  by (simp only: unat_eq_nat_uint uint_sint_nonneg)

lemma sint_add_small:
  "- (2 ^ 63) \<le> sint (a::int64) + sint b \<Longrightarrow> sint a + sint b < 2 ^ 63 \<Longrightarrow> sint (a + b) = sint a + sint b"
  by (simp add: sint_word_ariths signed_take_bit_int_eq_self)

lemma sint_add_wrap:
  "2 ^ 63 \<le> sint (a::int64) + sint b \<Longrightarrow> sint (a + b) = sint a + sint b - 2 ^ 64"
proof -
  assume a: "2 ^ 63 \<le> sint a + sint b"
  have "sint a < 2 ^ 63" "sint b < 2 ^ 63" using sint_less [of a] sint_less [of b] by simp_all
  then have b: "- (2 ^ 63) \<le> sint a + sint b - 2 ^ 64" "sint a + sint b - 2 ^ 64 < 2 ^ 63" using a by simp_all
  have "signed_take_bit 63 (sint a + sint b) = signed_take_bit 63 (sint a + sint b - 2 ^ 64)"
    by (simp add: signed_take_bit_eq_iff_take_bit_eq take_bit_eq_mod)
  also have "\<dots> = sint a + sint b - 2 ^ 64" using b by (rule signed_take_bit_int_eq_self)
  finally show ?thesis by (simp add: sint_word_ariths)
qed

lemma shl_nonneg: "0 \<le> sint n \<Longrightarrow> shl x n = Inr (push_bit (nat (sint n)) x)"
  by (simp add: shl_def word_sless_alt unat_sint_nonneg)

lemma shl_neg: "sint n < 0 \<Longrightarrow> shl x n = Inl RuntimePanic"
  by (simp add: shl_def word_sless_alt)

lemma bit_closed: "bit (NOT (push_bit k (- 1)) AND push_bit l (- 1) :: int64) n \<longleftrightarrow> l \<le> n \<and> n < k \<and> n < 64"
  by (auto simp add: bit_simps)

lemma getBits_step1:
  assumes "0 \<le> sint lo" "0 \<le> sint hi" "sint hi < 2 ^ 63 - 1"
  shows "getBits lo hi 1 = ok (NOT (push_bit (nat (sint hi) + 1) (- 1)) AND push_bit (nat (sint lo)) (- 1))"
proof -
  have "sint (hi + 1) = sint hi + 1" using assms by (simp add: sint_add_small)
  then have "shl (- 1) (hi + 1) = Inr (push_bit (nat (sint hi) + 1) (- 1))"
    using assms by (simp add: shl_nonneg nat_add_distrib)
  then show ?thesis using assms by (simp add: getBits_def bindR_def shl_nonneg)
qed




lemma step_arith:
  fixes n i s :: int
  assumes "0 < s"
  shows "(i \<le> n \<and> (n - i) mod s = 0) \<longleftrightarrow> n = i \<or> (i + s \<le> n \<and> (n - (i + s)) mod s = 0)"
proof -
  have m: "(n - (i + s)) mod s = (n - i) mod s"
    by (metis diff_diff_eq mod_diff_right_eq mod_self diff_zero)
  have "i < n \<Longrightarrow> (n - i) mod s = 0 \<Longrightarrow> s \<le> n - i"
    using assms by (metis mod_pos_pos_trivial not_less diff_gt_0_iff_gt less_le order.asym)
  then show ?thesis using assms m by auto
qed

lemma bit_push_bit_1: "bit (push_bit k (1::int64)) n \<longleftrightarrow> n = k \<and> n < 64"
  by (auto simp add: bit_simps)

lemma getBits_loop_spec:
  assumes "0 < sint step" "0 \<le> sint i" "sint upper + sint step < 2 ^ 63"
    and "sint i \<le> sint upper + sint step"
  shows "\<exists>w. getBits_loop upper step i bits = ok w \<and>
           (\<forall>n. bit w n \<longleftrightarrow> bit bits n \<or>
              (n < 64 \<and> sint i \<le> int n \<and> int n \<le> sint upper \<and> (int n - sint i) mod sint step = 0))"
  using assms
proof (induction "nat (sint upper + sint step - sint i)" arbitrary: i bits rule: less_induct)
  case less
  show ?case
  proof (cases "sint i \<le> sint upper")
    case False
    then have "getBits_loop upper step i bits = ok bits"
      by (subst getBits_loop.simps) (simp add: word_sle_eq ok_def)
    then show ?thesis using False by auto
  next
    case True
    have si: "sint (i + step) = sint i + sint step"
      using True less.prems by (intro sint_add_small) auto
    have sh: "shl 1 i = Inr (push_bit (nat (sint i)) 1)"
      using less.prems by (simp add: shl_nonneg)
    have unf: "getBits_loop upper step i bits =
        getBits_loop upper step (i + step) (bits OR push_bit (nat (sint i)) 1)"
      using True by (subst getBits_loop.simps) (simp add: word_sle_eq sh)
    have m: "nat (sint upper + sint step - sint (i + step)) < nat (sint upper + sint step - sint i)"
      using si True less.prems by auto
    have pr: "0 \<le> sint (i + step)" "sint (i + step) \<le> sint upper + sint step"
      using si True less.prems by auto
    from less.hyps [OF m less.prems(1) pr(1) less.prems(3) pr(2),
        of "bits OR push_bit (nat (sint i)) 1"]
    obtain w where w: "getBits_loop upper step (i + step) (bits OR push_bit (nat (sint i)) 1) = ok w"
      and b: "\<And>n. bit w n \<longleftrightarrow> bit (bits OR push_bit (nat (sint i)) 1) n \<or>
         (n < 64 \<and> sint (i + step) \<le> int n \<and> int n \<le> sint upper
            \<and> (int n - sint (i + step)) mod sint step = 0)"
      by blast
    have p: "\<And>n. bit (push_bit (nat (sint i)) (1::int64)) n \<longleftrightarrow> int n = sint i \<and> n < 64"
      unfolding bit_push_bit_1 using less.prems(2) by auto
    have "bit w n \<longleftrightarrow> bit bits n \<or>
              (n < 64 \<and> sint i \<le> int n \<and> int n \<le> sint upper \<and> (int n - sint i) mod sint step = 0)" for n
    proof -
      define P where "P = ((int n - sint i) mod sint step = 0)"
      define Q where "Q = ((int n - (sint i + sint step)) mod sint step = 0)"
      have "(sint i \<le> int n \<and> P) \<longleftrightarrow> int n = sint i \<or> (sint i + sint step \<le> int n \<and> Q)"
        unfolding P_def Q_def using less.prems(1) by (rule step_arith)
      then have "(bit bits n \<or> int n = sint i \<and> n < 64) \<or>
           n < 64 \<and> sint i + sint step \<le> int n \<and> int n \<le> sint upper \<and> Q \<longleftrightarrow>
           bit bits n \<or> n < 64 \<and> sint i \<le> int n \<and> int n \<le> sint upper \<and> P"
        using True less.prems(1) by auto
      then show ?thesis unfolding b si bit_or_iff p P_def Q_def .
    qed
    then show ?thesis using unf w by auto
  qed
qed

section \<open>The bits of a range\<close>

lemma bit_fold_or:
  "bit (fold (\<lambda>i bits. bits OR push_bit i 1) xs (acc::int64)) n \<longleftrightarrow> bit acc n \<or> (n \<in> set xs \<and> n < 64)"
proof (induction xs arbitrary: acc)
  case Nil
  then show ?case by simp
next
  case (Cons x xs)
  have "bit (fold (\<lambda>i bits. bits OR push_bit i 1) (x # xs) acc) n
      = bit (fold (\<lambda>i bits. bits OR push_bit i 1) xs (acc OR push_bit x 1)) n" by simp
  also have "\<dots> \<longleftrightarrow> bit (acc OR push_bit x 1) n \<or> (n \<in> set xs \<and> n < 64)" by (rule Cons.IH)
  also have "\<dots> \<longleftrightarrow> bit acc n \<or> (n \<in> set (x # xs) \<and> n < 64)"
    unfolding bit_or_iff bit_push_bit_1 by auto
  finally show ?case .
qed

lemma bit_naiveBits: "bit (naiveBits lo hi) n \<longleftrightarrow> lo \<le> n \<and> n \<le> hi \<and> n < 64"
  unfolding naiveBits_def bit_fold_or set_upt by auto

text \<open>
  C8. For \<open>0 \<le> lo \<le> hi \<le> 63\<close> the closed form of \<^verbatim>\<open>getBits\<close> for step 1 returns
  the mask of the naive construction, and so does the loop of \<^verbatim>\<open>getBits\<close> run with
  step 1; its bits are exactly \<open>lo\<close> to \<open>hi\<close>. The case \<open>hi = 63\<close>, where the
  shift count is 64, is included.
\<close>

theorem getBits_step1_closed_form:
  assumes "0 \<le>s lo" "lo \<le>s hi" "hi \<le>s 63"
  shows "getBits lo hi 1 = ok (naiveBits (unat lo) (unat hi))
       \<and> getBits_loop hi 1 lo 0 = ok (naiveBits (unat lo) (unat hi))
       \<and> (\<forall>n. bit (naiveBits (unat lo) (unat hi)) n \<longleftrightarrow> unat lo \<le> n \<and> n \<le> unat hi)"
proof -
  have s: "0 \<le> sint lo" "sint lo \<le> sint hi" "sint hi \<le> 63"
    using assms by (simp_all add: word_sle_eq)
  then have h0: "0 \<le> sint hi" by simp
  have u: "unat lo = nat (sint lo)" "unat hi = nat (sint hi)"
    using s h0 by (simp_all only: unat_sint_nonneg)
  have hi63: "nat (sint hi) \<le> 63" using s by simp
  have "getBits lo hi 1 =
      ok (NOT (push_bit (nat (sint hi) + 1) (- 1)) AND push_bit (nat (sint lo)) (- 1))"
    using s h0 by (intro getBits_step1) simp_all
  moreover have "NOT (push_bit (nat (sint hi) + 1) (- 1)) AND push_bit (nat (sint lo)) (- 1)
      = naiveBits (nat (sint lo)) (nat (sint hi))"
    by (rule bit_eqI) (use hi63 in \<open>auto simp only: bit_closed bit_naiveBits\<close>)
  ultimately have closed: "getBits lo hi 1 = ok (naiveBits (unat lo) (unat hi))"
    by (simp only: u)
  obtain w where w: "getBits_loop hi 1 lo 0 = ok w"
    and b: "\<And>n. bit w n \<longleftrightarrow> bit (0::int64) n \<or>
        (n < 64 \<and> sint lo \<le> int n \<and> int n \<le> sint hi \<and> (int n - sint lo) mod sint (1::int64) = 0)"
    using getBits_loop_spec [of 1 lo hi 0] s by auto
  have "w = naiveBits (nat (sint lo)) (nat (sint hi))"
    by (rule bit_eqI) (use s in \<open>auto simp add: b bit_naiveBits\<close>)
  then have loop: "getBits_loop hi 1 lo 0 = ok (naiveBits (unat lo) (unat hi))"
    using w by (simp only: u)
  have "\<forall>n. bit (naiveBits (unat lo) (unat hi)) n \<longleftrightarrow> unat lo \<le> n \<and> n \<le> unat hi"
    unfolding bit_naiveBits u using hi63 by auto
  with closed loop show ?thesis by blast
qed

theorem getBits_step1_closed_form_witness:
  "getBits 0 63 1 = ok (naiveBits 0 63) \<and> getBits_loop 63 1 0 0 = ok (naiveBits 0 63)
     \<and> (\<forall>n. bit (naiveBits 0 63) n \<longleftrightarrow> n \<le> 63)"
proof -
  have "(0::int64) \<le>s 0" "(0::int64) \<le>s 63" "(63::int64) \<le>s 63"
    by (simp_all add: word_sle_eq)
  from getBits_step1_closed_form [OF this] show ?thesis by simp
qed

section \<open>Ranges\<close>

lemma getBits_one:
  assumes "0 \<le> sint lo" "sint lo \<le> sint hi" "sint hi \<le> 63"
  shows "getBits lo hi 1 = ok (naiveBits (nat (sint lo)) (nat (sint hi)))"
proof -
  have h0: "0 \<le> sint hi" using assms by simp
  have hi63: "nat (sint hi) \<le> 63" using assms by simp
  have "getBits lo hi 1 =
      ok (NOT (push_bit (nat (sint hi) + 1) (- 1)) AND push_bit (nat (sint lo)) (- 1))"
    using assms h0 by (intro getBits_step1) simp_all
  moreover have "NOT (push_bit (nat (sint hi) + 1) (- 1)) AND push_bit (nat (sint lo)) (- 1)
      = naiveBits (nat (sint lo)) (nat (sint hi))"
    by (rule bit_eqI) (use hi63 in \<open>auto simp only: bit_closed bit_naiveBits\<close>)
  ultimately show ?thesis by simp
qed

lemma bit_starBit: "bit starBit n \<longleftrightarrow> n = 63"
  unfolding starBit_def bit_push_bit_1 by auto

lemma Split_notin: "sep \<notin> set s \<Longrightarrow> Split s sep = [s]"
  by (induction s) auto

lemma Split_append: "sep \<notin> set a \<Longrightarrow> Split (a @ sep # b) sep = a # Split b sep"
  by (induction a) auto

lemma bindR_ok [simp]: "bindR (ok v) f = f v"
  by (simp add: bindR_def ok_def)

lemma bindR_err [simp]: "bindR (err e) f = err e"
  by (simp add: bindR_def err_def)

lemma bindR_Some_Inr [simp]: "bindR (Some (Inr v)) f = f v"
  by (simp add: bindR_def)

lemma bindR_Some_Inl [simp]: "bindR (Some (Inl e)) f = err e"
  by (simp add: bindR_def err_def)

lemma ok_neq_err [simp]: "ok v \<noteq> err e" "err e \<noteq> ok v"
  by (simp_all add: ok_def err_def)

lemma ok_inject [simp]: "ok v = ok w \<longleftrightarrow> v = w"
  by (simp add: ok_def)

lemma err_inject [simp]: "(err e :: 'a result) = err e' \<longleftrightarrow> e = e'"
  by (simp add: err_def)

lemma getRange_wildcard:
  assumes w: "expr = ''*'' \<or> expr = ''?''"
    and b: "0 \<le> sint (min_b r)" "sint (min_b r) \<le> sint (max_b r)" "sint (max_b r) \<le> 63"
  shows "getRange expr r = ok (naiveBits (nat (sint (min_b r))) (nat (sint (max_b r))) OR starBit)"
  using w b by (auto simp add: getRange_def word_sless_alt getBits_one)




lemma getBits_spec:
  assumes "0 < sint step" "0 \<le> sint lo" "sint hi \<le> 63" "sint lo \<le> sint hi"
    and "sint hi + sint step < 2 ^ 63"
  shows "\<exists>w. getBits lo hi step = ok w \<and>
           (\<forall>n. bit w n \<longleftrightarrow>
              sint lo \<le> int n \<and> int n \<le> sint hi \<and> (int n - sint lo) mod sint step = 0)"
proof (cases "step = 1")
  case True
  have "getBits lo hi 1 = ok (naiveBits (nat (sint lo)) (nat (sint hi)))"
    using assms by (intro getBits_one) simp_all
  moreover have "bit (naiveBits (nat (sint lo)) (nat (sint hi))) n \<longleftrightarrow>
      sint lo \<le> int n \<and> int n \<le> sint hi \<and> (int n - sint lo) mod 1 = 0" for n
    unfolding bit_naiveBits using assms by auto
  ultimately show ?thesis using True by simp
next
  case False
  obtain w where w: "getBits_loop hi step lo 0 = ok w"
    and b: "\<And>n. bit w n \<longleftrightarrow> bit (0::int64) n \<or>
        (n < 64 \<and> sint lo \<le> int n \<and> int n \<le> sint hi \<and> (int n - sint lo) mod sint step = 0)"
    using getBits_loop_spec [of step lo hi 0] assms by auto
  have "bit w n \<longleftrightarrow>
      sint lo \<le> int n \<and> int n \<le> sint hi \<and> (int n - sint lo) mod sint step = 0" for n
    unfolding b using assms(3) by auto
  then show ?thesis using False w by (simp add: getBits_def)
qed

lemma ParseUint_from_digits: "ParseUint_from n s = Inr v \<Longrightarrow> list_all isDigit s"
  by (induction s arbitrary: n) (auto split: if_splits)

lemma decimal_foldl_bounds:
  "list_all isDigit ds \<Longrightarrow> 0 \<le> n \<Longrightarrow>
     0 \<le> foldl (\<lambda>n c. n * 10 + digitVal c) n ds
     \<and> foldl (\<lambda>n c. n * 10 + digitVal c) n ds < (n + 1) * 10 ^ length ds"
proof (induction ds arbitrary: n)
  case Nil
  then show ?case by simp
next
  case (Cons c ds)
  have d: "0 \<le> digitVal c" "digitVal c \<le> 9"
    using Cons.prems(1) by (simp_all add: isDigit_def digitVal_def)
  have n: "0 \<le> n * 10 + digitVal c" using d Cons.prems(2) by simp
  have "list_all isDigit ds" using Cons.prems(1) by simp
  from Cons.IH [OF this n]
  have ih: "0 \<le> foldl (\<lambda>n c. n * 10 + digitVal c) (n * 10 + digitVal c) ds"
    "foldl (\<lambda>n c. n * 10 + digitVal c) (n * 10 + digitVal c) ds
       < (n * 10 + digitVal c + 1) * 10 ^ length ds"
    by simp_all
  have "(n * 10 + digitVal c + 1) * 10 ^ length ds \<le> ((n + 1) * 10) * 10 ^ length ds"
    using d by (intro mult_right_mono) simp_all
  then have "foldl (\<lambda>n c. n * 10 + digitVal c) (n * 10 + digitVal c) ds < ((n + 1) * 10) * 10 ^ length ds"
    using ih(2) by linarith
  then show ?case using ih(1) by (simp add: algebra_simps)
qed

lemma decimal_bounds:
  assumes "list_all isDigit ds" "length ds \<le> 18"
  shows "0 \<le> decimal ds" "decimal ds < 2 ^ 63"
proof -
  have b: "0 \<le> decimal ds" "decimal ds < 10 ^ length ds"
    using decimal_foldl_bounds [OF assms(1), of 0] by (simp_all add: decimal_def)
  show "0 \<le> decimal ds" by (rule b)
  have "(10::int) ^ length ds \<le> 10 ^ 18" using assms(2) by (intro power_increasing) simp_all
  then show "decimal ds < 2 ^ 63" using b(2) by simp
qed

lemma sint_word_of_int_small:
  "0 \<le> k \<Longrightarrow> k < 2 ^ 63 \<Longrightarrow> sint (word_of_int k :: int64) = k"
proof -
  assume a: "0 \<le> k" "k < 2 ^ 63"
  have "sint (word_of_int k :: int64) = signed_take_bit 63 k" by (simp add: sint_sbintrunc')
  also have "\<dots> = k" using a by (intro signed_take_bit_int_eq_self) simp_all
  finally show ?thesis .
qed

lemma word_small_sint: "\<not> 2 ^ 63 \<le> (un::64 word) \<Longrightarrow> 0 \<le> sint un"
proof -
  assume "\<not> 2 ^ 63 \<le> un"
  then have "uint un < 2 ^ 63" by (simp add: word_le_def)
  then show ?thesis using sint_cases [of un] sint_ge [of un] uint_ge_0 [of un]
    by auto
qed


lemma Atoi_chars:
  assumes "Atoi s = Inr v"
  shows "\<forall>c \<in> set s. isDigit c \<or> c = CHR ''-'' \<or> c = CHR ''+''"
proof -
  define ds where "ds = (if take 1 s = ''-'' \<or> take 1 s = ''+'' then drop 1 s else s)"
  have d: "list_all isDigit ds"
  proof (cases "0 < length s \<and> length s < 19")
    case True
    then show ?thesis using assms unfolding Atoi_def Let_def ds_def by (auto split: if_splits)
  next
    case False
    then have "ParseInt s = Inr v" using assms by (auto simp add: Atoi_def split: if_splits)
    then obtain un where "ParseUint ds = Inr un"
      unfolding ParseInt_def Let_def ds_def by (auto split: if_splits sum.splits)
    then have "ParseUint_from 0 ds = Inr un" by (simp add: ParseUint_def split: if_splits)
    then show ?thesis by (rule ParseUint_from_digits)
  qed
  have "set s \<subseteq> set ds \<union> {CHR ''-'', CHR ''+''}"
    unfolding ds_def by (cases s) (auto split: if_splits)
  then show ?thesis using d by (auto simp add: list_all_iff)
qed

lemma Atoi_nonneg:
  assumes "Atoi s = Inr v" "take 1 s \<noteq> ''-''"
  shows "0 \<le> sint v"
proof (cases "0 < length s \<and> length s < 19")
  case True
  define ds where "ds = (if take 1 s = ''+'' then drop 1 s else s)"
  have l: "length ds \<le> 18" using True by (auto simp add: ds_def)
  have "list_all isDigit ds \<and> v = word_of_int (decimal ds)"
    using assms True unfolding Atoi_def Let_def ds_def by (auto split: if_splits)
  then show ?thesis using decimal_bounds [of ds] l by (simp add: sint_word_of_int_small)
next
  case False
  then have "ParseInt s = Inr v" using assms by (auto simp add: Atoi_def split: if_splits)
  then have "\<not> 2 ^ 63 \<le> v"
    using assms(2) unfolding ParseInt_def Let_def by (auto split: if_splits sum.splits)
  then show ?thesis by (rule word_small_sint)
qed

lemma mustParseInt_Inr:
  assumes "mustParseInt s = Inr v"
  shows "CHR ''/'' \<notin> set s" and "0 \<le> sint v"
proof -
  from assms obtain a: "Atoi s = Inr v" and n: "\<not> v <s 0"
    by (auto simp add: mustParseInt_def split: sum.splits if_splits)
  show "CHR ''/'' \<notin> set s"
    using Atoi_chars [OF a] by (auto simp add: isDigit_def)
  show "0 \<le> sint v" using n by (simp add: word_sless_alt)
qed

lemma mustParseInt_Negative:
  assumes "mustParseInt s = Inl (NegativeNumber v t)"
  shows "CHR ''/'' \<notin> set s"
proof -
  from assms obtain w where a: "Atoi s = Inr w"
    by (auto simp add: mustParseInt_def split: sum.splits if_splits)
  show ?thesis using Atoi_chars [OF a] by (auto simp add: isDigit_def)
qed




lemma getRange_wild_step:
  assumes "low = ''*'' \<or> low = ''?''" and "mustParseInt stepText = Inr step"
  shows "getRange (low @ ''/'' @ stepText) r
       = rangeResult (low @ ''/'' @ stepText) r (min_b r) (max_b r) step starBit"
proof -
  have "CHR ''/'' \<notin> set stepText" using assms(2) by (rule mustParseInt_Inr)
  then have "Split (low @ ''/'' @ stepText) CHR ''/'' = [low, stepText]"
    using assms(1) by (auto simp add: Split_notin)
  then show ?thesis using assms
    by (auto simp add: getRange_def rangeResult_def)
qed

lemma getRange_single:
  assumes "CHR ''/'' \<notin> set lowText" "CHR ''-'' \<notin> set lowText"
    and "lowText \<noteq> ''*''" "lowText \<noteq> ''?''"
    and "parseIntOrName lowText (names r) = Inr start"
  shows "getRange lowText r = rangeResult lowText r start start 1 0"
  using assms by (simp add: getRange_def rangeResult_def Split_notin)

lemma getRange_single_step:
  assumes "CHR ''/'' \<notin> set lowText" "CHR ''-'' \<notin> set lowText"
    and "lowText \<noteq> ''*''" "lowText \<noteq> ''?''"
    and "parseIntOrName lowText (names r) = Inr start"
    and "mustParseInt stepText = Inr step"
  shows "getRange (lowText @ ''/'' @ stepText) r
       = rangeResult (lowText @ ''/'' @ stepText) r start (max_b r) step 0"
proof -
  have "CHR ''/'' \<notin> set stepText" using assms(6) by (rule mustParseInt_Inr)
  then have "Split (lowText @ ''/'' @ stepText) CHR ''/'' = [lowText, stepText]"
    using assms(1) by (simp add: Split_append Split_notin)
  then show ?thesis using assms
    by (simp add: getRange_def rangeResult_def Split_notin)
qed

lemma getRange_range:
  assumes "CHR ''/'' \<notin> set lowText" "CHR ''-'' \<notin> set lowText"
    and "CHR ''/'' \<notin> set highText" "CHR ''-'' \<notin> set highText"
    and "lowText \<noteq> ''*''" "lowText \<noteq> ''?''"
    and "parseIntOrName lowText (names r) = Inr start"
    and "parseIntOrName highText (names r) = Inr end"
  shows "getRange (lowText @ ''-'' @ highText) r
       = rangeResult (lowText @ ''-'' @ highText) r start end 1 0"
proof -
  have "Split (lowText @ ''-'' @ highText) CHR ''/'' = [lowText @ ''-'' @ highText]"
    using assms by (simp add: Split_notin)
  moreover have "Split (lowText @ ''-'' @ highText) CHR ''-'' = [lowText, highText]"
    using assms by (simp add: Split_append Split_notin)
  ultimately show ?thesis using assms
    by (simp add: getRange_def rangeResult_def)
qed

lemma getRange_range_step:
  assumes "CHR ''/'' \<notin> set lowText" "CHR ''-'' \<notin> set lowText"
    and "CHR ''/'' \<notin> set highText" "CHR ''-'' \<notin> set highText"
    and "lowText \<noteq> ''*''" "lowText \<noteq> ''?''"
    and "parseIntOrName lowText (names r) = Inr start"
    and "parseIntOrName highText (names r) = Inr end"
    and "mustParseInt stepText = Inr step"
  shows "getRange (lowText @ ''-'' @ highText @ ''/'' @ stepText) r
       = rangeResult (lowText @ ''-'' @ highText @ ''/'' @ stepText) r start end step 0"
proof -
  have "CHR ''/'' \<notin> set stepText" using assms(9) by (rule mustParseInt_Inr)
  moreover have "CHR ''/'' \<notin> set (lowText @ ''-'' @ highText)" using assms by simp
  ultimately have "Split (lowText @ ''-'' @ highText @ ''/'' @ stepText) CHR ''/''
      = [lowText @ ''-'' @ highText, stepText]"
    using Split_append [of "CHR ''/''" "lowText @ ''-'' @ highText" stepText]
    by (simp add: Split_notin)
  moreover have "Split (lowText @ ''-'' @ highText) CHR ''-'' = [lowText, highText]"
    using assms by (simp add: Split_append Split_notin)
  ultimately show ?thesis using assms
    by (simp add: getRange_def rangeResult_def)
qed

lemma getRange_negative_step:
  assumes "CHR ''/'' \<notin> set lowText" "CHR ''-'' \<notin> set lowText"
    and "CHR ''/'' \<notin> set highText" "CHR ''-'' \<notin> set highText"
    and "lowText \<noteq> ''*''" "lowText \<noteq> ''?''"
    and "parseIntOrName lowText (names r) = Inr start"
    and "parseIntOrName highText (names r) = Inr end"
    and "mustParseInt stepText = Inl (NegativeNumber v stepText)"
  shows "getRange (lowText @ ''-'' @ highText @ ''/'' @ stepText) r
       = err (NegativeNumber v stepText)"
proof -
  have "CHR ''/'' \<notin> set stepText" using assms(9) by (rule mustParseInt_Negative)
  moreover have "CHR ''/'' \<notin> set (lowText @ ''-'' @ highText)" using assms by simp
  ultimately have "Split (lowText @ ''-'' @ highText @ ''/'' @ stepText) CHR ''/''
      = [lowText @ ''-'' @ highText, stepText]"
    using Split_append [of "CHR ''/''" "lowText @ ''-'' @ highText" stepText]
    by (simp add: Split_notin)
  moreover have "Split (lowText @ ''-'' @ highText) CHR ''-'' = [lowText, highText]"
    using assms by (simp add: Split_append Split_notin)
  ultimately show ?thesis using assms
    by (simp add: getRange_def)
qed

lemma Split_nonempty: "Split s sep \<noteq> []"
  by (induction s) (auto split: list.splits)

lemma Split_pieces: "p \<in> set (Split s sep) \<Longrightarrow> sep \<notin> set p"
proof (induction s arbitrary: p)
  case Nil
  then show ?case by simp
next
  case (Cons c s)
  show ?case
  proof (cases "c = sep")
    case True
    then show ?thesis using Cons by auto
  next
    case False
    obtain q qs where q: "Split s sep = q # qs" using Split_nonempty [of s sep] by (cases "Split s sep") auto
    then have "p = c # q \<or> p \<in> set qs" using Cons.prems False by simp
    then show ?thesis using Cons.IH [of q] Cons.IH [of p] q False by auto
  qed
qed

lemma Split_one: "Split s sep = [a] \<Longrightarrow> s = a \<and> sep \<notin> set a"
proof (induction s arbitrary: a)
  case Nil
  then show ?case by simp
next
  case (Cons c s)
  obtain q qs where q: "Split s sep = q # qs" using Split_nonempty [of s sep] by (cases "Split s sep") auto
  show ?case using Cons q by (auto split: if_splits)
qed

lemma Split_two: "Split s sep = [a, b] \<Longrightarrow> s = a @ sep # b \<and> sep \<notin> set a \<and> sep \<notin> set b"
proof (induction s arbitrary: a)
  case Nil
  then show ?case by simp
next
  case (Cons c s)
  obtain q qs where q: "Split s sep = q # qs" using Split_nonempty [of s sep] by (cases "Split s sep") auto
  show ?case
  proof (cases "c = sep")
    case True
    then have "a = []" "Split s sep = [b]" using Cons.prems by simp_all
    then show ?thesis using True Split_one [of s sep b] by simp
  next
    case False
    then obtain a' where "a = c # a'" "Split s sep = [a', b]" using Cons.prems q by auto
    then show ?thesis using Cons.IH [of a'] False by simp
  qed
qed

lemma mustParseInt_Negative_iff:
  "mustParseInt s = Inl (NegativeNumber v t) \<longleftrightarrow> Atoi s = Inr v \<and> v <s 0 \<and> t = s"
  by (auto simp add: mustParseInt_def split: sum.splits if_splits)

lemma mustParseInt_Negative_hyphen:
  assumes "mustParseInt s = Inl (NegativeNumber v t)"
  shows "take 1 s = ''-''"
proof (rule ccontr)
  assume n: "take 1 s \<noteq> ''-''"
  have a: "Atoi s = Inr v" "v <s 0" using assms by (simp_all add: mustParseInt_Negative_iff)
  from Atoi_nonneg [OF a(1) n] a(2) show False by (simp add: word_sless_alt)
qed

lemma parseIntOrName_Negative:
  assumes "parseIntOrName s nms = Inl (NegativeNumber v t)"
  shows "CHR ''-'' \<in> set s"
proof -
  have "mustParseInt s = Inl (NegativeNumber v t)"
    using assms by (auto simp add: parseIntOrName_def split: option.splits)
  then have "take 1 s = ''-''" by (rule mustParseInt_Negative_hyphen)
  then show ?thesis by (cases s) auto
qed

lemma getBits_loop_error:
  assumes "getBits_loop upper step i bits = Some y"
  shows "\<forall>e. y = Inl e \<longrightarrow> e = RuntimePanic"
  by (rule getBits_loop.raw_induct [OF _ assms])
     (auto simp add: shl_def split: if_splits sum.splits)

lemma getBits_loop_mono:
  assumes "getBits_loop upper step i bits = Some y"
  shows "\<forall>w. y = Inr w \<longrightarrow> bit bits n \<longrightarrow> bit w n"
  by (rule getBits_loop.raw_induct [OF _ assms])
     (auto simp add: bit_or_iff split: if_splits sum.splits)

lemma Some_eq_err [simp]: "Some x = err e \<longleftrightarrow> x = Inl e"
  by (simp add: err_def)

lemma Some_eq_ok [simp]: "Some x = ok v \<longleftrightarrow> x = Inr v"
  by (simp add: ok_def)

lemma getBits_error: "getBits lo hi step = err e \<Longrightarrow> e = RuntimePanic"
  by (auto simp add: getBits_def shl_def bindR_def ok_def err_def dest: getBits_loop_error
      split: if_splits sum.splits)

lemma bindR_eq_ok: "bindR m f = ok v \<longleftrightarrow> (\<exists>x. m = ok x \<and> f x = ok v)"
  by (auto simp add: bindR_def ok_def split: option.splits sum.splits)

lemma bindR_eq_err: "bindR m f = err e \<longleftrightarrow> m = err e \<or> (\<exists>x. m = ok x \<and> f x = err e)"
  by (auto simp add: bindR_def ok_def err_def split: option.splits sum.splits)

lemma rangeResult_error:
  assumes "rangeResult expr r start end step extra = err e"
  shows "e = RangeBelowMinimum start (min_b r) expr \<or> e = RangeAboveMaximum end (max_b r) expr
       \<or> e = RangeInverted start end expr \<or> e = NonPositiveStep expr \<or> e = RuntimePanic"
  using assms by (auto simp add: rangeResult_def bindR_eq_err dest: getBits_error split: if_splits)

lemma getRange_NegativeNumber:
  assumes "getRange expr r = err (NegativeNumber v t)"
  shows "\<exists>rangeText. expr = rangeText @ ''/'' @ t \<and> CHR ''/'' \<notin> set rangeText
           \<and> mustParseInt t = Inl (NegativeNumber v t)"
proof -
  define rangeAndStep where "rangeAndStep = Split expr CHR ''/''"
  define lowAndHigh where "lowAndHigh = Split (case rangeAndStep of [] \<Rightarrow> [] | x # _ \<Rightarrow> x) CHR ''-''"
  define low where "low = (case lowAndHigh of [] \<Rightarrow> [] | x # _ \<Rightarrow> x)"
  define A where "A = (if low = ''*'' \<or> low = ''?'' then ok (min_b r, max_b r, starBit)
            else bindR (Some (parseIntOrName low (names r))) (\<lambda>start.
                 case lowAndHigh of
                   [_] \<Rightarrow> ok (start, start, 0)
                 | [_, high] \<Rightarrow>
                     bindR (Some (parseIntOrName high (names r))) (\<lambda>end. ok (start, end, 0))
                 | _ \<Rightarrow> err (TooManyHyphens expr)))"
  define B where "B = (\<lambda>end0. case rangeAndStep of
              [_] \<Rightarrow> ok (1, end0)
            | [_, stepText] \<Rightarrow>
                bindR (Some (mustParseInt stepText)) (\<lambda>step.
                ok (step, if length lowAndHigh = 1 then max_b r else end0))
            | _ \<Rightarrow> err (TooManySlashes expr))"
  have g: "getRange expr r = bindR A (\<lambda>(start, end0, extra). bindR (B end0)
      (\<lambda>(step, end). rangeResult expr r start end step extra))"
    unfolding getRange_def rangeResult_def Let_def A_def B_def low_def lowAndHigh_def rangeAndStep_def ..
  have nh: "CHR ''-'' \<notin> set p" if "p \<in> set lowAndHigh" for p
    using that unfolding lowAndHigh_def by (rule Split_pieces)
  have notA: "A \<noteq> err (NegativeNumber v t)"
  proof
    assume a: "A = err (NegativeNumber v t)"
    then have nw: "\<not> (low = ''*'' \<or> low = ''?'')" by (auto simp add: A_def)
    show False
    proof (cases "parseIntOrName low (names r)")
      case (Inl e)
      then have "e = NegativeNumber v t" using a nw by (simp add: A_def)
      then have "CHR ''-'' \<in> set low" using Inl parseIntOrName_Negative by blast
      moreover have "low \<in> set lowAndHigh"
        using Split_nonempty [of _ "CHR ''-''"] unfolding low_def lowAndHigh_def
        by (auto split: list.splits)
      ultimately show False using nh by blast
    next
      case (Inr start)
      then obtain l high where lh: "lowAndHigh = [l, high]"
        and h: "parseIntOrName high (names r) = Inl (NegativeNumber v t)"
        using a nw by (auto simp add: A_def bindR_eq_err split: list.splits sum.splits)
      then have "CHR ''-'' \<in> set high" using parseIntOrName_Negative by blast
      then show False using nh [of high] lh by simp
    qed
  qed
  from assms g notA obtain start end0 extra where A: "A = ok (start, end0, extra)"
    and rest: "bindR (B end0) (\<lambda>(step, end). rangeResult expr r start end step extra)
        = err (NegativeNumber v t)"
    by (auto simp add: bindR_eq_err)
  have notR: "rangeResult expr r start end step extra \<noteq> err (NegativeNumber v t)" for step "end"
    using rangeResult_error [of expr r start "end" step extra "NegativeNumber v t"] by auto
  from rest notR have Berr: "B end0 = err (NegativeNumber v t)"
    by (auto simp add: bindR_eq_err)
  then obtain rangeText stepText where rs: "rangeAndStep = [rangeText, stepText]"
    and m: "mustParseInt stepText = Inl (NegativeNumber v t)"
    by (auto simp add: B_def bindR_eq_err split: list.splits sum.splits)
  have t: "t = stepText" using m by (simp add: mustParseInt_Negative_iff)
  have "expr = rangeText @ CHR ''/'' # stepText \<and> CHR ''/'' \<notin> set rangeText \<and> CHR ''/'' \<notin> set stepText"
    using rs unfolding rangeAndStep_def by (rule Split_two)
  then show ?thesis using m t by auto
qed

lemma getRange_wild:
  assumes "wild = ''*'' \<or> wild = ''?''"
  shows "getRange wild r = rangeResult wild r (min_b r) (max_b r) 1 starBit"
  using assms by (auto simp add: getRange_def rangeResult_def)


lemma getRange_wild_negative_step:
  assumes "wild = ''*'' \<or> wild = ''?''" and "mustParseInt negText = Inl (NegativeNumber v negText)"
  shows "getRange (wild @ ''/'' @ negText) r = err (NegativeNumber v negText)"
proof -
  have "CHR ''/'' \<notin> set negText" using assms(2) by (rule mustParseInt_Negative)
  then have "Split (wild @ ''/'' @ negText) CHR ''/'' = [wild, negText]"
    using assms(1) by (auto simp add: Split_notin)
  then show ?thesis using assms by (auto simp add: getRange_def)
qed

lemma getRange_single_negative_step:
  assumes "CHR ''/'' \<notin> set lowText" "CHR ''-'' \<notin> set lowText"
    and "lowText \<noteq> ''*''" "lowText \<noteq> ''?''"
    and "parseIntOrName lowText (names r) = Inr start"
    and "mustParseInt negText = Inl (NegativeNumber v negText)"
  shows "getRange (lowText @ ''/'' @ negText) r = err (NegativeNumber v negText)"
proof -
  have "CHR ''/'' \<notin> set negText" using assms(6) by (rule mustParseInt_Negative)
  then have "Split (lowText @ ''/'' @ negText) CHR ''/'' = [lowText, negText]"
    using assms(1) by (simp add: Split_append Split_notin)
  then show ?thesis using assms
    by (simp add: getRange_def Split_notin)
qed

lemma getRange_shape:
  obtains A B where "getRange expr r = bindR A (\<lambda>(start, end0 :: int64, extra). bindR (B end0)
      (\<lambda>(step, end). rangeResult expr r start end step extra))"
proof -
  define rangeAndStep where "rangeAndStep = Split expr CHR ''/''"
  define lowAndHigh where "lowAndHigh = Split (case rangeAndStep of [] \<Rightarrow> [] | x # _ \<Rightarrow> x) CHR ''-''"
  define low where "low = (case lowAndHigh of [] \<Rightarrow> [] | x # _ \<Rightarrow> x)"
  define A where "A = (if low = ''*'' \<or> low = ''?'' then ok (min_b r, max_b r, starBit)
            else bindR (Some (parseIntOrName low (names r))) (\<lambda>start.
                 case lowAndHigh of
                   [_] \<Rightarrow> ok (start, start, 0)
                 | [_, high] \<Rightarrow>
                     bindR (Some (parseIntOrName high (names r))) (\<lambda>end. ok (start, end, 0))
                 | _ \<Rightarrow> err (TooManyHyphens expr)))"
  define B where "B = (\<lambda>end0. case rangeAndStep of
              [_] \<Rightarrow> ok (1, end0)
            | [_, stepText] \<Rightarrow>
                bindR (Some (mustParseInt stepText)) (\<lambda>step.
                ok (step, if length lowAndHigh = 1 then max_b r else end0))
            | _ \<Rightarrow> err (TooManySlashes expr))"
  have g: "getRange expr r = bindR A (\<lambda>(start, end0, extra). bindR (B end0)
      (\<lambda>(step, end). rangeResult expr r start end step extra))"
    unfolding getRange_def rangeResult_def Let_def A_def B_def low_def lowAndHigh_def rangeAndStep_def ..
  show ?thesis using g by (rule that)
qed

lemma getRange_ok_rangeResult:
  assumes "getRange expr r = ok w"
  shows "\<exists>start end step extra. rangeResult expr r start end step extra = ok w"
proof -
  obtain A B where g: "getRange expr r = bindR A (\<lambda>(start, end0 :: int64, extra). bindR (B end0)
      (\<lambda>(step, end). rangeResult expr r start end step extra))"
    by (rule getRange_shape [of expr r])
  from assms obtain x where "(case x of (start, end0, extra) \<Rightarrow> bindR (B end0)
      (\<lambda>(step, end). rangeResult expr r start end step extra)) = ok w"
    unfolding g bindR_eq_ok by blast
  then obtain start end0 extra where "bindR (B end0)
      (\<lambda>(step, end). rangeResult expr r start end step extra) = ok w"
    by (cases x) auto
  then obtain y where "(case y of (step, end) \<Rightarrow> rangeResult expr r start end step extra) = ok w"
    unfolding bindR_eq_ok by blast
  then show ?thesis by (cases y) auto
qed

lemma rangeResult_ok_bit:
  assumes "rangeResult expr r start end step extra = ok w"
    and "0 \<le> sint (min_b r)" "sint (max_b r) \<le> 63"
  shows "bit w (nat (sint start))"
proof -
  from assms(1) obtain bits where c: "\<not> start <s min_b r" "\<not> max_b r <s end" "\<not> end <s start"
    and g: "getBits start end step = ok bits" and w: "w = bits OR extra"
    by (auto simp add: rangeResult_def bindR_eq_ok split: if_splits)
  have s: "0 \<le> sint start" "sint start \<le> sint end" "sint end \<le> 63"
    using c assms(2,3) by (simp_all add: word_sless_alt)
  have "bit bits (nat (sint start))"
  proof (cases "step = 1")
    case True
    have "getBits start end 1 = ok (naiveBits (nat (sint start)) (nat (sint end)))"
      using s by (rule getBits_one)
    then have "bits = naiveBits (nat (sint start)) (nat (sint end))" using g True by simp
    moreover have "nat (sint start) \<le> nat (sint end)" "nat (sint start) < 64" using s by linarith+
    ultimately show ?thesis by (simp add: bit_naiveBits)
  next
    case False
    then have l: "getBits_loop end step start 0 = Some (Inr bits)" using g by (simp add: getBits_def ok_def)
    have sh: "shl 1 start = Inr (push_bit (nat (sint start)) 1)" using s by (simp add: shl_nonneg)
    have "getBits_loop end step (start + step) (0 OR push_bit (nat (sint start)) 1) = Some (Inr bits)"
      using l s by (subst (asm) getBits_loop.simps) (simp add: word_sle_eq sh)
    moreover have "bit (0 OR push_bit (nat (sint start)) (1::int64)) (nat (sint start))"
      unfolding bit_or_iff bit_push_bit_1 using s by linarith
    ultimately show ?thesis using getBits_loop_mono by blast
  qed
  then show ?thesis by (simp add: w bit_or_iff)
qed

lemma getRange_ok_nonzero:
  assumes "getRange expr r = ok w" "0 \<le> sint (min_b r)" "sint (max_b r) \<le> 63"
  shows "w \<noteq> 0"
proof -
  obtain start "end" step extra where "rangeResult expr r start end step extra = ok w"
    using getRange_ok_rangeResult [OF assms(1)] by blast
  then have "bit w (nat (sint start))" using assms(2,3) by (rule rangeResult_ok_bit)
  then show ?thesis by auto
qed

lemma getField_loop_zero:
  assumes "getField_loop ranges r bits = ok w" "0 \<le> sint (min_b r)" "sint (max_b r) \<le> 63"
  shows "w = 0 \<longleftrightarrow> bits = 0 \<and> ranges = []"
  using assms(1)
proof (induction ranges arbitrary: bits)
  case Nil
  then show ?case by auto
next
  case (Cons expr ranges)
  then obtain b where b: "getRange expr r = ok b"
    and l: "getField_loop ranges r (bits OR b) = ok w"
    by (auto simp add: bindR_eq_ok)
  have "b \<noteq> 0" using b assms(2,3) by (rule getRange_ok_nonzero)
  then have "bits OR b \<noteq> 0" by (simp add: or_eq_0_iff)
  then show ?case using Cons.IH [OF l] by simp
qed

lemma FieldsFunc_from_empty: "FieldsFunc_from f cur s = [] \<longleftrightarrow> cur = [] \<and> (\<forall>c \<in> set s. f c)"
  by (induction s arbitrary: cur) auto

lemma getField_zero:
  assumes "getField field r = ok w" "0 \<le> sint (min_b r)" "sint (max_b r) \<le> 63"
  shows "w = 0 \<longleftrightarrow> set field \<subseteq> {CHR '',''}"
proof -
  have "w = 0 \<longleftrightarrow> FieldsFunc_from (\<lambda>c. c = CHR '','') [] field = []"
    using getField_loop_zero [OF assms(1) [unfolded getField_def FieldsFunc_def] assms(2,3)] by simp
  then show ?thesis by (auto simp add: FieldsFunc_from_empty)
qed

lemma rangeResult_bits:
  assumes "0 \<le> sint (min_b r)" "sint (min_b r) \<le> sint start" "sint start \<le> sint end"
    and "sint end \<le> sint (max_b r)" "sint (max_b r) \<le> 63"
    and "0 < sint step" "sint end + sint step < 2 ^ 63"
  shows "\<exists>w. rangeResult expr r start end step extra = ok w \<and>
           (\<forall>n. bit w n \<longleftrightarrow> bit extra n \<or>
              (sint start \<le> int n \<and> int n \<le> sint end \<and> (int n - sint start) mod sint step = 0))"
proof -
  obtain w where w: "getBits start end step = ok w"
    and b: "\<And>n. bit w n \<longleftrightarrow>
        sint start \<le> int n \<and> int n \<le> sint end \<and> (int n - sint start) mod sint step = 0"
    using getBits_spec [of step start "end"] assms by auto
  have "step \<noteq> 0" using assms(6) by auto
  then have "rangeResult expr r start end step extra = ok (w OR extra)"
    using assms w by (simp add: rangeResult_def word_sless_alt)
  moreover have "bit (w OR extra) n \<longleftrightarrow> bit extra n \<or>
      (sint start \<le> int n \<and> int n \<le> sint end \<and> (int n - sint start) mod sint step = 0)" for n
    unfolding bit_or_iff b by auto
  ultimately show ?thesis by blast
qed

lemma getRange_star_step_bits:
  assumes "low = ''*'' \<or> low = ''?''" and "mustParseInt stepText = Inr step"
    and "0 \<le> sint (min_b r)" "sint (min_b r) \<le> sint (max_b r)" "sint (max_b r) \<le> 63"
    and "step \<noteq> 0" "sint (max_b r) + sint step < 2 ^ 63"
  shows "\<exists>w. getRange (low @ ''/'' @ stepText) r = ok w \<and>
           (\<forall>n. bit w n \<longleftrightarrow> n = 63 \<or>
              (sint (min_b r) \<le> int n \<and> int n \<le> sint (max_b r)
                 \<and> (int n - sint (min_b r)) mod sint step = 0))"
proof -
  have "0 \<le> sint step" using assms(2) by (rule mustParseInt_Inr)
  moreover have "sint step \<noteq> 0" using assms(6) by (metis sint_0 signed_word_eqI)
  ultimately have "0 < sint step" by simp
  then have "\<exists>w. rangeResult (low @ ''/'' @ stepText) r (min_b r) (max_b r) step starBit = ok w \<and>
           (\<forall>n. bit w n \<longleftrightarrow> bit starBit n \<or>
              (sint (min_b r) \<le> int n \<and> int n \<le> sint (max_b r)
                 \<and> (int n - sint (min_b r)) mod sint step = 0))"
    using assms by (intro rangeResult_bits) simp_all
  moreover have "getRange (low @ ''/'' @ stepText) r
      = rangeResult (low @ ''/'' @ stepText) r (min_b r) (max_b r) step starBit"
    using assms(1,2) by (rule getRange_wild_step)
  ultimately show ?thesis by (simp only: bit_starBit)
qed

lemma getRange_single_step_bits:
  assumes "CHR ''/'' \<notin> set lowText" "CHR ''-'' \<notin> set lowText"
    and "lowText \<noteq> ''*''" "lowText \<noteq> ''?''"
    and "parseIntOrName lowText (names r) = Inr start"
    and "mustParseInt stepText = Inr step"
    and "0 \<le> sint (min_b r)" "sint (min_b r) \<le> sint start" "sint start \<le> sint (max_b r)"
    and "sint (max_b r) \<le> 63" "step \<noteq> 0" "sint (max_b r) + sint step < 2 ^ 63"
  shows "\<exists>w. getRange (lowText @ ''/'' @ stepText) r = ok w \<and>
           (\<forall>n. bit w n \<longleftrightarrow>
              sint start \<le> int n \<and> int n \<le> sint (max_b r) \<and> (int n - sint start) mod sint step = 0)"
proof -
  have "0 \<le> sint step" using assms(6) by (rule mustParseInt_Inr)
  moreover have "sint step \<noteq> 0" using assms(11) by (metis sint_0 signed_word_eqI)
  ultimately have "0 < sint step" by simp
  then have "\<exists>w. rangeResult (lowText @ ''/'' @ stepText) r start (max_b r) step 0 = ok w \<and>
           (\<forall>n. bit w n \<longleftrightarrow> bit (0::int64) n \<or>
              (sint start \<le> int n \<and> int n \<le> sint (max_b r)
                 \<and> (int n - sint start) mod sint step = 0))"
    using assms by (intro rangeResult_bits) simp_all
  moreover have "getRange (lowText @ ''/'' @ stepText) r
      = rangeResult (lowText @ ''/'' @ stepText) r start (max_b r) step 0"
    using assms(1-6) by (rule getRange_single_step)
  ultimately show ?thesis by simp
qed

lemma getRange_range_step_bits:
  assumes "CHR ''/'' \<notin> set lowText" "CHR ''-'' \<notin> set lowText"
    and "CHR ''/'' \<notin> set highText" "CHR ''-'' \<notin> set highText"
    and "lowText \<noteq> ''*''" "lowText \<noteq> ''?''"
    and "parseIntOrName lowText (names r) = Inr start"
    and "parseIntOrName highText (names r) = Inr end"
    and "mustParseInt stepText = Inr step"
    and "0 \<le> sint (min_b r)" "sint (min_b r) \<le> sint start" "sint start \<le> sint end"
    and "sint end \<le> sint (max_b r)" "sint (max_b r) \<le> 63"
    and "step \<noteq> 0" "sint end + sint step < 2 ^ 63"
  shows "\<exists>w. getRange (lowText @ ''-'' @ highText @ ''/'' @ stepText) r = ok w \<and>
           (\<forall>n. bit w n \<longleftrightarrow>
              sint start \<le> int n \<and> int n \<le> sint end \<and> (int n - sint start) mod sint step = 0)"
proof -
  have "0 \<le> sint step" using assms(9) by (rule mustParseInt_Inr)
  moreover have "sint step \<noteq> 0" using assms(15) by (metis sint_0 signed_word_eqI)
  ultimately have "0 < sint step" by simp
  then have "\<exists>w. rangeResult (lowText @ ''-'' @ highText @ ''/'' @ stepText) r start end step 0
             = ok w \<and>
           (\<forall>n. bit w n \<longleftrightarrow> bit (0::int64) n \<or>
              (sint start \<le> int n \<and> int n \<le> sint end
                 \<and> (int n - sint start) mod sint step = 0))"
    using assms by (intro rangeResult_bits) simp_all
  moreover have "getRange (lowText @ ''-'' @ highText @ ''/'' @ stepText) r
      = rangeResult (lowText @ ''-'' @ highText @ ''/'' @ stepText) r start end step 0"
    using assms(1-9) by (rule getRange_range_step)
  ultimately show ?thesis by simp
qed

text \<open>
  C5. For bounds with \<open>0 \<le> min \<le> max \<le> 63\<close>, as the bounds of the six fields are,
  \<^verbatim>\<open>getRange\<close> on a bare \<open>*\<close> or a bare \<open>?\<close> returns the mask whose bits are exactly
  \<open>min\<close> to \<open>max\<close> and the star bit 63.
\<close>

theorem getRange_star_full_range:
  assumes "expr = ''*'' \<or> expr = ''?''"
    and "0 \<le>s min_b r" "min_b r \<le>s max_b r" "max_b r \<le>s 63"
  shows "\<exists>w. getRange expr r = ok w \<and>
           (\<forall>n. bit w n \<longleftrightarrow> (unat (min_b r) \<le> n \<and> n \<le> unat (max_b r)) \<or> n = 63)"
proof -
  have s: "0 \<le> sint (min_b r)" "sint (min_b r) \<le> sint (max_b r)" "sint (max_b r) \<le> 63"
    using assms by (simp_all add: word_sle_eq)
  then have h0: "0 \<le> sint (max_b r)" by simp
  have u: "unat (min_b r) = nat (sint (min_b r))" "unat (max_b r) = nat (sint (max_b r))"
    using s h0 by (simp_all only: unat_sint_nonneg)
  have "getRange expr r
      = ok (naiveBits (nat (sint (min_b r))) (nat (sint (max_b r))) OR starBit)"
    using assms(1) s by (rule getRange_wildcard)
  moreover have "bit (naiveBits (nat (sint (min_b r))) (nat (sint (max_b r))) OR starBit) n \<longleftrightarrow>
      (unat (min_b r) \<le> n \<and> n \<le> unat (max_b r)) \<or> n = 63" for n
    unfolding bit_or_iff bit_naiveBits bit_starBit u using s by auto
  ultimately show ?thesis by blast
qed

theorem getRange_star_full_range_witness:
  "(\<exists>w. getRange ''*'' seconds = ok w \<and> (\<forall>n. bit w n \<longleftrightarrow> n \<le> 59 \<or> n = 63))
   \<and> (\<exists>w. getRange ''?'' minutes = ok w \<and> (\<forall>n. bit w n \<longleftrightarrow> n \<le> 59 \<or> n = 63))
   \<and> (\<exists>w. getRange ''*'' hours = ok w \<and> (\<forall>n. bit w n \<longleftrightarrow> n \<le> 23 \<or> n = 63))
   \<and> (\<exists>w. getRange ''?'' dom_b = ok w \<and> (\<forall>n. bit w n \<longleftrightarrow> (1 \<le> n \<and> n \<le> 31) \<or> n = 63))
   \<and> (\<exists>w. getRange ''*'' months = ok w \<and> (\<forall>n. bit w n \<longleftrightarrow> (1 \<le> n \<and> n \<le> 12) \<or> n = 63))
   \<and> (\<exists>w. getRange ''?'' dow = ok w \<and> (\<forall>n. bit w n \<longleftrightarrow> n \<le> 6 \<or> n = 63))"
  using getRange_star_full_range [of "''*''" seconds] getRange_star_full_range [of "''?''" minutes]
    getRange_star_full_range [of "''*''" hours] getRange_star_full_range [of "''?''" dom_b]
    getRange_star_full_range [of "''*''" months] getRange_star_full_range [of "''?''" dow]
  by (simp add: seconds_def minutes_def hours_def dom_b_def months_def dow_def word_sle_eq)

text \<open>
  C9. \<^verbatim>\<open>getRange\<close> on \<open>*/s\<close> does not return a mask for every step: in a field whose
  minimum is 1 the step \<open>2 ^ 63 - 1\<close> makes \<^verbatim>\<open>i += step\<close> wrap around to a negative
  \<open>i\<close>, and the shift \<^verbatim>\<open>1 << i\<close> panics. \<open>getRange_star_step_bits\<close> is the claim for
  the steps that do not overflow.
\<close>

theorem getRange_star_step_overflow:
  "getRange ''*/9223372036854775807'' dom_b = err RuntimePanic
   \<and> ParseStandard ''* * */9223372036854775807 * *'' = err RuntimePanic"
  by code_simp

text \<open>
  C2. Over the bounds 0 to 10, \<open>5/2\<close> sets the bits 5, 7 and 9 and \<open>1-5/2\<close> sets the
  bits 1, 3 and 5. But \<^verbatim>\<open>getRange\<close> on \<open>N/step\<close> does not return the bits
  \<open>N, N + step, \<dots>\<close> for every step: with \<open>N = 5\<close> and the step \<open>2 ^ 63 - 1\<close> the loop
  variable wraps around and the shift panics. \<open>getRange_single_step_bits\<close> and
  \<open>getRange_range_step_bits\<close> are the claim for the steps that do not overflow.
\<close>

theorem getRange_single_step_overflow:
  "getRange ''5/2'' \<lparr>min_b = 0, max_b = 10, names = None\<rparr>
     = ok (push_bit 5 1 OR push_bit 7 1 OR push_bit 9 1)
   \<and> getRange ''1-5/2'' \<lparr>min_b = 0, max_b = 10, names = None\<rparr>
     = ok (push_bit 1 1 OR push_bit 3 1 OR push_bit 5 1)
   \<and> getRange ''5/9223372036854775807'' \<lparr>min_b = 0, max_b = 10, names = None\<rparr>
     = err RuntimePanic
   \<and> ParseStandard ''5/9223372036854775807 * * * *'' = err RuntimePanic"
  by code_simp

section \<open>The checks of a range\<close>

text \<open>
  C6, as stated, fails: \<^verbatim>\<open>getRange\<close> splits \<open>-1\<close> at the hyphen into an empty start and
  the end \<open>1\<close>, and the empty start does not parse as an integer. The error is the
  one of \<^verbatim>\<open>strconv.Atoi\<close>, not \<open>NegativeNumber\<close>.
\<close>

theorem getRange_minus_one_counterexample:
  "getRange ''-1'' minutes = err (IntParseFailure '''' ErrSyntax)"
  by code_simp

text \<open>
  C6, amended. Whatever the form of the range is, \<^verbatim>\<open>getRange\<close> makes its four checks
  in one order: start below the minimum, end above the maximum, start beyond end, step
  0; the first check that fails gives its own error. For \<open>N\<close> the start and the end are
  \<open>N\<close> and the step is 1; for \<open>N/step\<close> the end is the maximum of the bounds; for
  \<open>*\<close>, \<open>?\<close>, \<open>*/step\<close> and \<open>?/step\<close> the start and the end are the bounds; for
  \<open>N-M\<close> and \<open>N-M/step\<close> they are \<open>N\<close> and \<open>M\<close>. A negative literal is rejected
  with \<open>NegativeNumber\<close> only where it is written as the step, and then before any of the
  four checks, whatever the range and the bounds are: every \<open>NegativeNumber\<close> that
  \<^verbatim>\<open>getRange\<close> returns is the one of \<^verbatim>\<open>mustParseInt\<close> on the text behind the slash, which
  starts with a hyphen. A hyphen in front of the slash separates start and end, so \<open>-1\<close>
  fails to parse its empty start. \<open>60\<close> in the minute field is above the maximum; \<open>11/0\<close>
  over 0 to 10 has its start beyond the end 10, and \<open>0/0\<close> in the day of month is below
  the minimum: both checks come before the one of the step.
\<close>

theorem getRange_validation_order:
  assumes "CHR ''/'' \<notin> set lowText" "CHR ''-'' \<notin> set lowText"
    and "CHR ''/'' \<notin> set highText" "CHR ''-'' \<notin> set highText"
    and "lowText \<noteq> ''*''" "lowText \<noteq> ''?''"
    and "parseIntOrName lowText (names r) = Inr start"
    and "parseIntOrName highText (names r) = Inr end"
    and "mustParseInt stepText = Inr step"
    and "mustParseInt negText = Inl (NegativeNumber v negText)"
    and "wild = ''*'' \<or> wild = ''?''"
  shows "getRange lowText r = rangeResult lowText r start start 1 0
       \<and> getRange (lowText @ ''/'' @ stepText) r
           = rangeResult (lowText @ ''/'' @ stepText) r start (max_b r) step 0
       \<and> getRange (lowText @ ''-'' @ highText) r
           = rangeResult (lowText @ ''-'' @ highText) r start end 1 0
       \<and> getRange (lowText @ ''-'' @ highText @ ''/'' @ stepText) r
           = rangeResult (lowText @ ''-'' @ highText @ ''/'' @ stepText) r start end step 0
       \<and> getRange wild r = rangeResult wild r (min_b r) (max_b r) 1 starBit
       \<and> getRange (wild @ ''/'' @ stepText) r
           = rangeResult (wild @ ''/'' @ stepText) r (min_b r) (max_b r) step starBit
       \<and> rangeResult expr r a b s extra =
           (if a <s min_b r then err (RangeBelowMinimum a (min_b r) expr)
            else if max_b r <s b then err (RangeAboveMaximum b (max_b r) expr)
            else if b <s a then err (RangeInverted a b expr)
            else if s = 0 then err (NonPositiveStep expr)
            else bindR (getBits a b s) (\<lambda>bits. ok (bits OR extra)))
       \<and> getRange (lowText @ ''/'' @ negText) r = err (NegativeNumber v negText)
       \<and> getRange (lowText @ ''-'' @ highText @ ''/'' @ negText) r = err (NegativeNumber v negText)
       \<and> getRange (wild @ ''/'' @ negText) r = err (NegativeNumber v negText)
       \<and> take 1 negText = ''-''
       \<and> (getRange expr bnds = err (NegativeNumber w t) \<longrightarrow>
            (\<exists>rangeText. expr = rangeText @ ''/'' @ t \<and> CHR ''/'' \<notin> set rangeText
               \<and> mustParseInt t = Inl (NegativeNumber w t)))
       \<and> mustParseInt ''-1'' = Inl (NegativeNumber (- 1) ''-1'')
       \<and> getRange ''-1'' minutes = err (IntParseFailure '''' ErrSyntax)
       \<and> getRange ''60'' minutes = err (RangeAboveMaximum 60 59 ''60'')
       \<and> getRange ''11/0'' \<lparr>min_b = 0, max_b = 10, names = None\<rparr> = err (RangeInverted 11 10 ''11/0'')
       \<and> getRange ''0/0'' dom_b = err (RangeBelowMinimum 0 1 ''0/0'')"
proof -
  have 1: "getRange lowText r = rangeResult lowText r start start 1 0"
    using assms(1,2,5,6,7) by (rule getRange_single)
  have 2: "getRange (lowText @ ''/'' @ stepText) r
           = rangeResult (lowText @ ''/'' @ stepText) r start (max_b r) step 0"
    using assms(1,2,5,6,7,9) by (rule getRange_single_step)
  have 3: "getRange (lowText @ ''-'' @ highText) r
           = rangeResult (lowText @ ''-'' @ highText) r start end 1 0"
    using assms(1-8) by (rule getRange_range)
  have 4: "getRange (lowText @ ''-'' @ highText @ ''/'' @ stepText) r
           = rangeResult (lowText @ ''-'' @ highText @ ''/'' @ stepText) r start end step 0"
    using assms(1-9) by (rule getRange_range_step)
  have 5: "getRange wild r = rangeResult wild r (min_b r) (max_b r) 1 starBit"
    using assms(11) by (rule getRange_wild)
  have 6: "getRange (wild @ ''/'' @ stepText) r
           = rangeResult (wild @ ''/'' @ stepText) r (min_b r) (max_b r) step starBit"
    using assms(11,9) by (rule getRange_wild_step)
  have 7: "getRange (lowText @ ''/'' @ negText) r = err (NegativeNumber v negText)"
    using assms(1,2,5,6,7,10) by (rule getRange_single_negative_step)
  have 8: "getRange (lowText @ ''-'' @ highText @ ''/'' @ negText) r = err (NegativeNumber v negText)"
    using assms(1-8,10) by (rule getRange_negative_step)
  have 9: "getRange (wild @ ''/'' @ negText) r = err (NegativeNumber v negText)"
    using assms(11,10) by (rule getRange_wild_negative_step)
  have 10: "take 1 negText = ''-''" using assms(10) by (rule mustParseInt_Negative_hyphen)
  have 11: "getRange expr bnds = err (NegativeNumber w t) \<longrightarrow>
            (\<exists>rangeText. expr = rangeText @ ''/'' @ t \<and> CHR ''/'' \<notin> set rangeText
               \<and> mustParseInt t = Inl (NegativeNumber w t))"
    using getRange_NegativeNumber [of expr bnds w t] by blast
  have 12: "mustParseInt ''-1'' = Inl (NegativeNumber (- 1) ''-1'')" by code_simp
  have 13: "getRange ''-1'' minutes = err (IntParseFailure '''' ErrSyntax)" by code_simp
  have 14: "getRange ''60'' minutes = err (RangeAboveMaximum 60 59 ''60'')" by code_simp
  have 15: "getRange ''11/0'' \<lparr>min_b = 0, max_b = 10, names = None\<rparr> = err (RangeInverted 11 10 ''11/0'')"
    by code_simp
  have 16: "getRange ''0/0'' dom_b = err (RangeBelowMinimum 0 1 ''0/0'')" by code_simp
  have 17: "rangeResult expr r a b s extra =
           (if a <s min_b r then err (RangeBelowMinimum a (min_b r) expr)
            else if max_b r <s b then err (RangeAboveMaximum b (max_b r) expr)
            else if b <s a then err (RangeInverted a b expr)
            else if s = 0 then err (NonPositiveStep expr)
            else bindR (getBits a b s) (\<lambda>bits. ok (bits OR extra)))"
    by (simp only: rangeResult_def)
  show ?thesis
    by (intro conjI; (fact 1 2 3 4 5 6 7 8 9 10 11 12 13 14 15 16 17))
qed

theorem getRange_validation_order_witness:
  "getRange ''1'' \<lparr>min_b = 0, max_b = 10, names = None\<rparr> = ok 2
   \<and> getRange ''1/2'' \<lparr>min_b = 0, max_b = 10, names = None\<rparr> = ok 682
   \<and> getRange ''1-5'' \<lparr>min_b = 0, max_b = 10, names = None\<rparr> = ok 62
   \<and> getRange ''1-5/2'' \<lparr>min_b = 0, max_b = 10, names = None\<rparr> = ok 42
   \<and> getRange ''1/-2'' \<lparr>min_b = 0, max_b = 10, names = None\<rparr> = err (NegativeNumber (- 2) ''-2'')
   \<and> getRange ''1-5/-2'' \<lparr>min_b = 0, max_b = 10, names = None\<rparr> = err (NegativeNumber (- 2) ''-2'')
   \<and> getRange ''*/-2'' \<lparr>min_b = 0, max_b = 10, names = None\<rparr> = err (NegativeNumber (- 2) ''-2'')
   \<and> (\<exists>rangeText. ''*/-2'' = rangeText @ ''/'' @ ''-2'' \<and> CHR ''/'' \<notin> set rangeText
         \<and> mustParseInt ''-2'' = Inl (NegativeNumber (- 2) ''-2''))"
proof -
  have h: "CHR ''/'' \<notin> set ''1''" "CHR ''-'' \<notin> set ''1''"
    "CHR ''/'' \<notin> set ''5''" "CHR ''-'' \<notin> set ''5''" "''1'' \<noteq> ''*''" "''1'' \<noteq> ''?''"
    by simp_all
  have p: "parseIntOrName ''1'' (names \<lparr>min_b = 0, max_b = 10, names = None\<rparr>) = Inr 1"
    "parseIntOrName ''5'' (names \<lparr>min_b = 0, max_b = 10, names = None\<rparr>) = Inr 5"
    "mustParseInt ''2'' = Inr 2" "mustParseInt ''-2'' = Inl (NegativeNumber (- 2) ''-2'')"
    by code_simp+
  have w: "''*'' = ''*'' \<or> ''*'' = ''?''" by simp
  have g: "getRange ''*/-2'' \<lparr>min_b = 0, max_b = 10, names = None\<rparr> = err (NegativeNumber (- 2) ''-2'')"
    by code_simp
  have r: "rangeResult ''1'' \<lparr>min_b = 0, max_b = 10, names = None\<rparr> 1 1 1 0 = ok 2"
    "rangeResult ''1/2'' \<lparr>min_b = 0, max_b = 10, names = None\<rparr> 1 10 2 0 = ok 682"
    "rangeResult ''1-5'' \<lparr>min_b = 0, max_b = 10, names = None\<rparr> 1 5 1 0 = ok 62"
    "rangeResult ''1-5/2'' \<lparr>min_b = 0, max_b = 10, names = None\<rparr> 1 5 2 0 = ok 42"
    by code_simp+
  from getRange_validation_order [OF h p w, where expr = "''*/-2''"
      and bnds = "\<lparr>min_b = 0, max_b = 10, names = None\<rparr>" and w = "- 2" and t = "''-2''"] g r
  show ?thesis by simp
qed

lemma FieldsFunc_from_replicate:
  "f c \<Longrightarrow> FieldsFunc_from f [] (replicate n c) = []"
  by (induction n) auto

lemma FieldsFunc_from_doubled:
  "f c \<Longrightarrow> FieldsFunc_from f cur (s @ c # c # t) = FieldsFunc_from f cur (s @ c # t)"
  by (induction s arbitrary: cur) auto

lemma FieldsFunc_from_trailing:
  "f c \<Longrightarrow> FieldsFunc_from f cur (s @ [c]) = FieldsFunc_from f cur s"
  by (induction s arbitrary: cur) auto

text \<open>
  C10. \<^verbatim>\<open>getField\<close> drops the empty pieces between commas: a text of commas only (or
  the empty text) gives the mask 0 and no error, a doubled comma reads as one comma, a
  trailing comma reads as none, and \<open>1,,2\<close> gives what \<open>1,2\<close> gives, for every bounds.
\<close>

theorem getField_drops_empty_pieces:
  "getField (replicate n CHR '','') r = ok 0
   \<and> getField (s @ '',,'' @ t) r = getField (s @ '','' @ t) r
   \<and> getField (s @ '','') r = getField s r
   \<and> getField ''1,,2'' r = getField ''1,2'' r"
  by (simp add: getField_def FieldsFunc_def FieldsFunc_from_replicate FieldsFunc_from_doubled
      FieldsFunc_from_trailing)

section \<open>The layout of the fields\<close>

lemma fillSlots_empty: "length dfl = length slots \<Longrightarrow> fillSlots (zip slots dfl) opts [] = dfl"
  by (induction slots arbitrary: dfl) (auto simp add: length_Suc_conv)

lemma expandFields_loop_fill:
  assumes "n < length flds" "length dfl = length rest" "length pre = i"
  shows "expandFields_loop flds opts i rest n (pre @ dfl)
       = ok (pre @ fillSlots (zip rest dfl) opts (drop n flds))"
  using assms
proof (induction rest arbitrary: i n pre dfl)
  case Nil
  then show ?case by simp
next
  case (Cons place rest)
  then obtain d dfl' where dfl: "dfl = d # dfl'" and len: "length dfl' = length rest"
    by (auto simp add: length_Suc_conv)
  have dr: "drop n flds = flds ! n # drop (Suc n) flds"
    using Cons.prems(1) by (simp add: Cons_nth_drop_Suc)
  have upd: "(pre @ d # dfl')[i := flds ! n] = (pre @ [flds ! n]) @ dfl'"
    using Cons.prems(3) by (simp add: list_update_append)
  show ?case
  proof (cases "0 <s (opts AND place)")
    case True
    show ?thesis
    proof (cases "n + 1 = length flds")
      case last: True
      then have "drop (Suc n) flds = []" by simp
      then show ?thesis using True last Cons.prems len
        by (simp add: dfl dr upd fillSlots_empty del: append_assoc)
    next
      case False
      then have m: "n + 1 < length flds" using Cons.prems(1) by simp
      have "expandFields_loop flds opts (i + 1) rest (n + 1) ((pre @ [flds ! n]) @ dfl')
          = ok ((pre @ [flds ! n]) @ fillSlots (zip rest dfl') opts (drop (n + 1) flds))"
        using m len Cons.prems(3) by (intro Cons.IH) simp_all
      then show ?thesis using True False Cons.prems
        by (simp add: dfl dr upd del: append_assoc) 
    qed
  next
    case False
    have "expandFields_loop flds opts (i + 1) rest n ((pre @ [d]) @ dfl')
        = ok ((pre @ [d]) @ fillSlots (zip rest dfl') opts (drop n flds))"
      using len Cons.prems by (intro Cons.IH) simp_all
    then show ?thesis using False Cons.prems
      by (simp add: dfl dr)
  qed
qed

lemma expandFields_layout:
  assumes "flds \<noteq> [] \<or> \<not> 0 <s (opts AND Second_opt)"
  shows "expandFields flds opts = ok (canonicalLayout opts flds)"
proof (cases "flds = []")
  case True
  then have "\<not> 0 <s (opts AND Second_opt)" using assms by simp
  then have "expandFields [] opts = ok defaults"
    by (simp add: expandFields_def places_def)
  moreover have "canonicalLayout opts [] = defaults"
    unfolding canonicalLayout_def by (rule fillSlots_empty) (simp add: places_def defaults_def)
  ultimately show ?thesis using True by simp
next
  case False
  then have "0 < length flds" by simp
  then have "expandFields_loop flds opts 0 places 0 ([] @ defaults)
      = ok ([] @ fillSlots (zip places defaults) opts (drop 0 flds))"
    by (intro expandFields_loop_fill) (simp_all add: places_def defaults_def)
  then show ?thesis by (simp add: expandFields_def canonicalLayout_def)
qed

lemma or_and_self: "(x OR y) AND y = (y :: int64)"
  by (rule bit_eqI) (auto simp add: bit_simps)

lemma NewParser_count:
  assumes "p = NewParser opts"
    and "\<not> (int (length flds) < int (length (filter (\<lambda>place. 0 <s (options p AND place)) places)) - optionals p
          \<or> int (length (filter (\<lambda>place. 0 <s (options p AND place)) places)) < int (length flds))"
  shows "flds \<noteq> [] \<or> \<not> 0 <s (options p AND Second_opt)"
proof (rule ccontr)
  assume "\<not> (flds \<noteq> [] \<or> \<not> 0 <s (options p AND Second_opt))"
  then have e: "flds = []" and s: "0 <s (options p AND Second_opt)" by simp_all
  define u where "u = int (length (filter (\<lambda>place. 0 <s (options p AND place)) places))"
  have u1: "1 \<le> u" using s by (simp add: u_def places_def)
  have le: "u \<le> optionals p" using assms(2) e by (simp add: u_def)
  show False
  proof (cases "0 <s (opts AND DowOptional_opt)")
    case True
    then have p: "options p = opts OR Dow_opt" by (simp add: assms(1) NewParser_def)
    have "0 <s (options p AND Dow_opt)"
      unfolding p or_and_self by (simp add: Dow_opt_def word_sless_alt)
    then have "2 \<le> u" using s by (simp add: u_def places_def)
    moreover have "optionals p = 1" using True by (simp add: assms(1) NewParser_def)
    ultimately show False using le by simp
  next
    case False
    then have "optionals p = 0" by (simp add: assms(1) NewParser_def)
    then show False using le u1 by simp
  qed
qed

text \<open>
  C7. \<^verbatim>\<open>expandFields\<close> returns the canonical layout: the provided fields go, in their
  order, into the enabled slots, and every other slot keeps its default. This holds
  when a field is provided or the seconds are disabled (with no field at all and the
  seconds enabled the source reads \<^verbatim>\<open>fields[0]\<close>), and so for every call that \<^verbatim>\<open>Parse\<close>
  makes for a parser of \<^verbatim>\<open>NewParser\<close>, after its check of the number of fields. The
  standard parser on \<open>0 0 15 * *\<close> gives second, minute and hour bit 0, day of month
  bit 15, and month and day of week their whole range with the star bit.
\<close>

theorem expandFields_canonical_layout:
  "(flds \<noteq> [] \<or> \<not> 0 <s (opts AND Second_opt)
      \<longrightarrow> expandFields flds opts = ok (canonicalLayout opts flds))
   \<and> (\<not> (int (length (Fields spec))
            < int (length (filter (\<lambda>place. 0 <s (options (NewParser opts) AND place)) places))
              - optionals (NewParser opts)
          \<or> int (length (filter (\<lambda>place. 0 <s (options (NewParser opts) AND place)) places))
            < int (length (Fields spec)))
      \<longrightarrow> expandFields (Fields spec) (options (NewParser opts))
          = ok (canonicalLayout (options (NewParser opts)) (Fields spec)))
   \<and> ParseStandard ''0 0 15 * *'' =
           ok \<lparr>Second = push_bit 0 1, Minute = push_bit 0 1, Hour = push_bit 0 1,
               Dom = push_bit 15 1, Month = specAll months, Dow = specAll dow,
               RepeatHour = 0, RepeatMin = 0, RepeatDate = 0, Location = None\<rparr>"
proof -
  have "ParseStandard ''0 0 15 * *'' =
           ok \<lparr>Second = push_bit 0 1, Minute = push_bit 0 1, Hour = push_bit 0 1,
               Dom = push_bit 15 1, Month = specAll months, Dow = specAll dow,
               RepeatHour = 0, RepeatMin = 0, RepeatDate = 0, Location = None\<rparr>"
    by code_simp
  then show ?thesis
    using expandFields_layout [of flds opts]
      expandFields_layout [OF NewParser_count [OF refl, of "Fields spec" opts]]
    by blast
qed

theorem expandFields_canonical_layout_witness:
  "expandFields [''0'', ''0'', ''15'', ''*'', ''*''] (options standardParser)
     = ok [''0'', ''0'', ''0'', ''15'', ''*'', ''*'']
   \<and> expandFields (Fields ''0 0 15 * *'') (options standardParser)
     = ok [''0'', ''0'', ''0'', ''15'', ''*'', ''*'']"
proof -
  have f: "Fields ''0 0 15 * *'' = [''0'', ''0'', ''15'', ''*'', ''*'']" by code_simp
  have h: "[''0'', ''0'', ''15'', ''*'', ''*''] \<noteq> [] \<or> \<not> 0 <s (options standardParser AND Second_opt)"
    by simp
  have c: "canonicalLayout (options standardParser) [''0'', ''0'', ''15'', ''*'', ''*'']
     = [''0'', ''0'', ''0'', ''15'', ''*'', ''*'']"
    by code_simp
  from expandFields_canonical_layout [of "[''0'', ''0'', ''15'', ''*'', ''*'']" "options standardParser"] h
  have "expandFields [''0'', ''0'', ''15'', ''*'', ''*''] (options standardParser)
     = ok (canonicalLayout (options standardParser) [''0'', ''0'', ''15'', ''*'', ''*''])"
    by blast
  then show ?thesis by (simp add: f c)
qed

section \<open>The named descriptors\<close>

lemma parseDescriptor_yearly:
  "parseDescriptor ''@yearly'' = ok (specRow (specMin seconds) (specMin minutes) (specMin hours)
      (specMin dom_b) (specMin months) (specAll dow))"
  by code_simp

lemma parseDescriptor_annually:
  "parseDescriptor ''@annually'' = ok (specRow (specMin seconds) (specMin minutes) (specMin hours)
      (specMin dom_b) (specMin months) (specAll dow))"
  by code_simp

lemma parseDescriptor_monthly:
  "parseDescriptor ''@monthly'' = ok (specRow (specMin seconds) (specMin minutes) (specMin hours)
      (specMin dom_b) (specAll months) (specAll dow))"
  by code_simp

lemma parseDescriptor_weekly:
  "parseDescriptor ''@weekly'' = ok (specRow (specMin seconds) (specMin minutes) (specMin hours)
      (specAll dom_b) (specAll months) (specMin dow))"
  by code_simp

lemma parseDescriptor_daily:
  "parseDescriptor ''@daily'' = ok (specRow (specMin seconds) (specMin minutes) (specMin hours)
      (specAll dom_b) (specAll months) (specAll dow))"
  by code_simp

lemma parseDescriptor_midnight:
  "parseDescriptor ''@midnight'' = ok (specRow (specMin seconds) (specMin minutes) (specMin hours)
      (specAll dom_b) (specAll months) (specAll dow))"
  by code_simp

lemma parseDescriptor_hourly:
  "parseDescriptor ''@hourly'' = ok (specRow (specMin seconds) (specMin minutes) (specAll hours)
      (specAll dom_b) (specAll months) (specAll dow))"
  by code_simp

lemma bit_specMin: "bit (specMin r) n \<longleftrightarrow> n = unat (min_b r) \<and> n < 64"
  unfolding specMin_def bit_push_bit_1 ..

lemma bit_specAll:
  "bit (specAll r) n \<longleftrightarrow> (unat (min_b r) \<le> n \<and> n \<le> unat (max_b r) \<and> n < 64) \<or> n = 63"
  unfolding specAll_def bit_or_iff bit_naiveBits bit_starBit ..

text \<open>
  C4. Each named descriptor gives the row of the table of the specification: the
  minimum bit or the whole range with the star bit in each field, and the repeat-date
  marker 1001, which is not 0. For \<open>@weekly\<close> the day of week is bit 0 only, and day of
  month and month are their whole range with the star bit.
\<close>

theorem parseDescriptor_table:
  "parseDescriptor ''@yearly'' = ok (specRow (specMin seconds) (specMin minutes) (specMin hours)
      (specMin dom_b) (specMin months) (specAll dow))
   \<and> parseDescriptor ''@annually'' = parseDescriptor ''@yearly''
   \<and> parseDescriptor ''@monthly'' = ok (specRow (specMin seconds) (specMin minutes) (specMin hours)
      (specMin dom_b) (specAll months) (specAll dow))
   \<and> parseDescriptor ''@weekly'' = ok (specRow (specMin seconds) (specMin minutes) (specMin hours)
      (specAll dom_b) (specAll months) (specMin dow))
   \<and> parseDescriptor ''@daily'' = ok (specRow (specMin seconds) (specMin minutes) (specMin hours)
      (specAll dom_b) (specAll months) (specAll dow))
   \<and> parseDescriptor ''@midnight'' = parseDescriptor ''@daily''
   \<and> parseDescriptor ''@hourly'' = ok (specRow (specMin seconds) (specMin minutes) (specAll hours)
      (specAll dom_b) (specAll months) (specAll dow))
   \<and> RepeatDate (specRow s m h d mo w) = 1001 \<and> (1001 :: int64) \<noteq> 0
   \<and> (\<forall>n. bit (specMin r) n \<longleftrightarrow> n = unat (min_b r) \<and> n < 64)
   \<and> (\<forall>n. bit (specAll r) n \<longleftrightarrow>
         (unat (min_b r) \<le> n \<and> n \<le> unat (max_b r) \<and> n < 64) \<or> n = 63)
   \<and> (\<forall>n. bit (specMin dow) n \<longleftrightarrow> n = 0)
   \<and> (\<forall>n. bit (specAll dom_b) n \<longleftrightarrow> (1 \<le> n \<and> n \<le> 31) \<or> n = 63)
   \<and> (\<forall>n. bit (specAll months) n \<longleftrightarrow> (1 \<le> n \<and> n \<le> 12) \<or> n = 63)"
proof -
  have a: "\<forall>n. bit (specMin dow) n \<longleftrightarrow> n = 0"
    unfolding bit_specMin by (auto simp add: dow_def)
  have b: "\<forall>n. bit (specAll dom_b) n \<longleftrightarrow> (1 \<le> n \<and> n \<le> 31) \<or> n = 63"
    unfolding bit_specAll by (auto simp add: dom_b_def)
  have c: "\<forall>n. bit (specAll months) n \<longleftrightarrow> (1 \<le> n \<and> n \<le> 12) \<or> n = 63"
    unfolding bit_specAll by (auto simp add: months_def)
  have d: "RepeatDate (specRow s m h d mo w) = 1001" by (simp add: specRow_def)
  show ?thesis
    unfolding parseDescriptor_yearly parseDescriptor_annually parseDescriptor_monthly
      parseDescriptor_weekly parseDescriptor_daily parseDescriptor_midnight parseDescriptor_hourly
    using a b c d bit_specMin [of r] bit_specAll [of r] by simp
qed

section \<open>Rounding in \<^verbatim>\<open>float64\<close>\<close>

lemma bitlen_bounds: "0 < n \<Longrightarrow> 2 ^ (bitlen n - 1) \<le> n \<and> n < 2 ^ bitlen n"
proof (induction n rule: bitlen.induct)
  case (1 n)
  show ?case
  proof (cases "n = 1")
    case True
    then show ?thesis by (simp add: bitlen.simps [of 1] bitlen.simps [of 0])
  next
    case False
    then have h: "0 < n div 2" using "1.prems" by simp
    have ih: "2 ^ (bitlen (n div 2) - 1) \<le> n div 2 \<and> n div 2 < 2 ^ bitlen (n div 2)"
      using "1.IH" "1.prems" h by simp
    have b: "bitlen n = Suc (bitlen (n div 2))" using "1.prems" by (subst bitlen.simps) simp
    have pos: "0 < bitlen (n div 2)" using h by (subst bitlen.simps) simp
    then have e: "(2::int) ^ bitlen (n div 2) = 2 * 2 ^ (bitlen (n div 2) - 1)"
      by (cases "bitlen (n div 2)") simp_all
    show ?thesis using ih unfolding b by (simp add: e) linarith
  qed
qed

lemma bitlen_le: "0 \<le> n \<Longrightarrow> n < 2 ^ k \<Longrightarrow> bitlen n \<le> k"
proof (cases "n = 0")
  case True
  then show ?thesis by (simp add: bitlen.simps [of 0])
next
  case False
  assume "0 \<le> n" "n < 2 ^ k"
  then have "0 < n" using False by simp
  from bitlen_bounds [OF this] have "(2::int) ^ (bitlen n - 1) < 2 ^ k"
    using \<open>n < 2 ^ k\<close> by linarith
  then have "bitlen n - 1 < k" by (simp add: power_strict_increasing_iff)
  then show ?thesis by simp
qed

lemma floor_log2_upper:
  assumes "0 < a" "a < 2 ^ k"
  shows "floor_log2 a \<le> int k - 1"
proof (cases "1 \<le> a")
  case True
  have "\<lfloor>a\<rfloor> < 2 ^ k" using assms(2) by (simp add: floor_less_iff)
  moreover have "0 \<le> \<lfloor>a\<rfloor>" using True by simp
  ultimately have "bitlen \<lfloor>a\<rfloor> \<le> k" by (rule bitlen_le [rotated])
  then show ?thesis using True by (simp add: floor_log2_def)
next
  case False
  then have "1 < 1 / a" using assms(1) by simp
  then have "2 \<le> \<lceil>1 / a\<rceil>" by (simp add: le_ceiling_iff) 
  then have "0 < \<lceil>1 / a\<rceil> - 1" by simp
  then have "0 < bitlen (\<lceil>1 / a\<rceil> - 1)" by (subst bitlen.simps) simp
  then show ?thesis using False by (simp add: floor_log2_def)
qed

lemma pow2_pos: "0 < pow2 e"
  by (simp add: pow2_def)

lemma pow2_diff: "e \<le> g \<Longrightarrow> pow2 g / pow2 e = 2 ^ nat (g - e)"
  by (auto simp add: pow2_def field_simps nat_diff_distrib simp flip: power_add
      intro!: arg_cong [where f = "\<lambda>n. 2 ^ n"])

lemma round_half_even_bounds: "\<lfloor>m\<rfloor> \<le> round_half_even m \<and> round_half_even m \<le> \<lceil>m\<rceil>"
proof -
  have "m - of_int \<lfloor>m\<rfloor> \<noteq> 0 \<Longrightarrow> \<lfloor>m\<rfloor> + 1 \<le> \<lceil>m\<rceil>"
    by (metis ceiling_altdef diff_self of_int_floor_cancel order_refl zle_add1_eq_le floor_less_cancel add.commute eq_iff_diff_eq_0)
  moreover have "\<lfloor>m\<rfloor> \<le> \<lceil>m\<rceil>" by (simp add: floor_le_ceiling)
  ultimately show ?thesis
    unfolding round_half_even_def Let_def by (auto split: if_splits)
qed




lemma round_f64_pos:
  "0 < x \<Longrightarrow> round_f64 x
     = of_int (round_half_even (x / pow2 (floor_log2 x - 52))) * pow2 (floor_log2 x - 52)"
  by (simp add: round_f64_def Let_def)

lemma grid_scale:
  assumes "e \<le> g"
  shows "of_int m * pow2 g = (of_int (m * 2 ^ nat (g - e)) :: rat) * pow2 e"
proof -
  have "pow2 g = 2 ^ nat (g - e) * pow2 e"
    using pow2_diff [OF assms] pow2_pos [of e] by (simp add: field_simps)
  then show ?thesis by simp
qed

lemma round_f64_lower:
  assumes "0 < x" "x < 2 ^ k" "int k - 53 \<le> g" "of_int m * pow2 g \<le> x"
  shows "of_int m * pow2 g \<le> round_f64 x"
proof -
  define e where "e = floor_log2 x - 52"
  define M where "M = m * 2 ^ nat (g - e)"
  have eg: "e \<le> g" using floor_log2_upper [OF assms(1,2)] assms(3) by (simp add: e_def)
  have pe: "0 < pow2 e" by (rule pow2_pos)
  have sc: "of_int m * pow2 g = of_int M * pow2 e"
    unfolding M_def using eg by (rule grid_scale)
  have "of_int M * pow2 e \<le> x" using assms(4) sc by simp
  then have "of_int M \<le> x / pow2 e" using pe by (simp add: pos_le_divide_eq)
  then have "M \<le> \<lfloor>x / pow2 e\<rfloor>" by (simp add: le_floor_iff)
  then have "M \<le> round_half_even (x / pow2 e)"
    using round_half_even_bounds [of "x / pow2 e"] by linarith
  then have "(of_int M :: rat) \<le> of_int (round_half_even (x / pow2 e))" by simp
  then have "of_int M * pow2 e \<le> of_int (round_half_even (x / pow2 e)) * pow2 e"
    using pe by (rule mult_right_mono [OF _ less_imp_le])
  then show ?thesis using assms(1) sc by (simp add: round_f64_pos e_def)
qed

lemma round_f64_upper:
  assumes "0 < x" "x < 2 ^ k" "int k - 53 \<le> g" "x \<le> of_int m * pow2 g"
  shows "round_f64 x \<le> of_int m * pow2 g"
proof -
  define e where "e = floor_log2 x - 52"
  define M where "M = m * 2 ^ nat (g - e)"
  have eg: "e \<le> g" using floor_log2_upper [OF assms(1,2)] assms(3) by (simp add: e_def)
  have pe: "0 < pow2 e" by (rule pow2_pos)
  have sc: "of_int m * pow2 g = of_int M * pow2 e"
    unfolding M_def using eg by (rule grid_scale)
  have "x \<le> of_int M * pow2 e" using assms(4) sc by simp
  then have "x / pow2 e \<le> of_int M" using pe by (simp add: pos_divide_le_eq)
  then have "\<lceil>x / pow2 e\<rceil> \<le> M" by (simp add: ceiling_le_iff)
  then have "round_half_even (x / pow2 e) \<le> M"
    using round_half_even_bounds [of "x / pow2 e"] by linarith
  then have "(of_int (round_half_even (x / pow2 e)) :: rat) \<le> of_int M" by simp
  then have "of_int (round_half_even (x / pow2 e)) * pow2 e \<le> of_int M * pow2 e"
    using pe by (rule mult_right_mono [OF _ less_imp_le])
  then show ?thesis using assms(1) sc by (simp add: round_f64_pos e_def)
qed

lemma f64_of_int_exact:
  assumes "0 \<le> n" "n < 2 ^ 53"
  shows "f64_of_int n = of_int n"
proof (cases "n = 0")
  case True
  then show ?thesis by (simp add: f64_of_int_def round_f64_def)
next
  case False
  then have p: "(0::rat) < of_int n" using assms(1) by simp
  have u: "(of_int n :: rat) < 2 ^ 53" using assms(2) by (metis of_int_less_iff of_int_numeral of_int_power)
  have "of_int n * pow2 0 \<le> round_f64 (of_int n)"
    by (rule round_f64_lower [OF p u]) (simp_all add: pow2_def)
  moreover have "round_f64 (of_int n) \<le> of_int n * pow2 0"
    by (rule round_f64_upper [OF p u]) (simp_all add: pow2_def)
  ultimately show ?thesis by (simp add: f64_of_int_def pow2_def)
qed




lemma sdiv_smod_nonneg:
  fixes D U :: int
  assumes "0 \<le> D" "0 < U"
  shows "D sdiv U = D div U" "D smod U = D mod U"
  using assms by (simp_all add: signed_divide_int_def signed_modulo_int_def sgn_if)

lemma pow2_neg: "pow2 (- int G) = 1 / 2 ^ G"
  by (simp add: pow2_def)

lemma f64_quotient_bounds:
  fixes D U :: int
  assumes "0 \<le> D" "0 < U" "U \<le> 2 ^ G" "D div U + 1 \<le> 2 ^ K" "K + G \<le> 52"
  defines "H \<equiv> f64_add (f64_of_int (D sdiv U)) (f64_div (f64_of_int (D smod U)) (of_int U))"
  shows "(D mod U = 0 \<longrightarrow> H = of_int (D div U))
       \<and> (D mod U \<noteq> 0 \<longrightarrow> of_int (D div U) + 1 / 2 ^ G \<le> H \<and> H \<le> of_int (D div U) + 1 - 1 / 2 ^ G)"
proof -
  define h where "h = D div U"
  define n where "n = D mod U"
  have n0: "0 \<le> n" and nU: "n < U" using assms(2) by (simp_all add: n_def)
  have h0: "0 \<le> h" using assms(1,2) by (simp add: h_def pos_imp_zdiv_nonneg_iff)
  have "G \<le> 52" "K \<le> 52" using assms(5) by simp_all
  then have G52: "(2::int) ^ G \<le> 2 ^ 52" and K52: "(2::int) ^ K \<le> 2 ^ 52"
    by (intro power_increasing; simp)+
  have nx: "f64_of_int n = of_int n"
    using n0 nU assms(3) G52 by (intro f64_of_int_exact) simp_all
  have hx: "f64_of_int h = of_int h"
    using h0 assms(4) K52 by (intro f64_of_int_exact) (simp_all add: h_def)
  have H: "H = round_f64 (of_int h + round_f64 (of_int n / of_int U))"
    using assms(1,2) by (simp add: H_def sdiv_smod_nonneg f64_add_def f64_div_def nx hx
        flip: h_def n_def)
  have Upos: "(0::rat) < of_int U" using assms(2) by simp
  have UG: "(of_int U :: rat) \<le> 2 ^ G" using assms(3) by (metis of_int_le_iff of_int_numeral of_int_power)
  have inv: "(1::rat) / 2 ^ G \<le> 1 / of_int U" using Upos UG by (simp add: frac_le)
  show ?thesis
  proof (cases "n = 0")
    case True
    have "round_f64 (of_int h) = of_int h" using hx by (simp add: f64_of_int_def)
    then show ?thesis using True by (simp add: H round_f64_def flip: h_def n_def)
  next
    case False
    then have n1: "1 \<le> n" using n0 by simp
    define x1 where "x1 = (of_int n :: rat) / of_int U"
    have x1pos: "0 < x1" using n1 Upos by (simp add: x1_def)
    have x1lt: "x1 < 2 ^ 0" using nU Upos by (simp add: x1_def)
    have x1lo: "1 / 2 ^ G \<le> x1"
    proof -
      have "(1::rat) / of_int U \<le> of_int n / of_int U" using n1 Upos by (simp add: divide_right_mono)
      then show ?thesis using inv by (simp add: x1_def)
    qed
    have x1hi: "x1 \<le> 1 - 1 / 2 ^ G"
    proof -
      have "(of_int n :: rat) \<le> of_int U - 1" using nU by (metis of_int_1 of_int_diff of_int_le_iff zle_diff1_eq)
      then have "x1 \<le> (of_int U - 1) / of_int U" using Upos by (simp add: x1_def divide_right_mono)
      also have "\<dots> = 1 - 1 / of_int U" using Upos by (simp add: field_simps)
      also have "\<dots> \<le> 1 - 1 / 2 ^ G" using inv by simp
      finally show ?thesis .
    qed
    define q where "q = round_f64 x1"
    have qlo: "1 / 2 ^ G \<le> q"
    proof -
      have "of_int 1 * pow2 (- int G) \<le> round_f64 x1"
        using x1lo assms(5) by (intro round_f64_lower [OF x1pos x1lt]) (simp_all add: pow2_neg)
      then show ?thesis by (simp add: q_def pow2_neg)
    qed
    have qhi: "q \<le> 1 - 1 / 2 ^ G"
    proof -
      have "round_f64 x1 \<le> of_int (2 ^ G - 1) * pow2 (- int G)"
        using x1hi assms(5) by (intro round_f64_upper [OF x1pos x1lt]) (simp_all add: pow2_neg field_simps)
      then show ?thesis by (simp add: q_def pow2_neg field_simps)
    qed
    have gpos: "(0::rat) < 1 / 2 ^ G" by simp
    define x2 where "x2 = of_int h + q"
    have qpos: "0 < q" using gpos qlo by (rule less_le_trans)
    have "(0::rat) \<le> of_int h" using h0 by simp
    then have x2pos: "0 < x2" unfolding x2_def using qpos by (rule add_nonneg_pos)
    have "x2 < of_int h + 1" unfolding x2_def using qhi gpos by linarith
    also have "\<dots> = of_int (h + 1)" by simp
    also have "\<dots> \<le> 2 ^ K" using assms(4) by (metis h_def of_int_le_iff of_int_numeral of_int_power)
    finally have x2lt: "x2 < 2 ^ K" .
    have lo: "of_int (h * 2 ^ G + 1) * pow2 (- int G) \<le> round_f64 x2"
      using qlo assms(5) by (intro round_f64_lower [OF x2pos x2lt]) (simp_all add: pow2_neg x2_def field_simps)
    have hi: "round_f64 x2 \<le> of_int ((h + 1) * 2 ^ G - 1) * pow2 (- int G)"
      using qhi assms(5) by (intro round_f64_upper [OF x2pos x2lt]) (simp_all add: pow2_neg x2_def field_simps)
    have "of_int (h * 2 ^ G + 1) * pow2 (- int G) = (of_int h + 1 / 2 ^ G :: rat)"
      by (simp add: pow2_neg field_simps)
    moreover have "of_int ((h + 1) * 2 ^ G - 1) * pow2 (- int G) = (of_int h + 1 - 1 / 2 ^ G :: rat)"
      by (simp add: pow2_neg field_simps)
    ultimately have "of_int h + 1 / 2 ^ G \<le> round_f64 x2 \<and> round_f64 x2 \<le> of_int h + 1 - 1 / 2 ^ G"
      using lo hi by simp
    then show ?thesis using False by (simp add: H x2_def q_def x1_def flip: h_def n_def)
  qed
qed




lemma ceiling_between:
  fixes x :: rat
  assumes "of_int k < x" "x \<le> of_int k + 1"
  shows "\<lceil>x\<rceil> = k + 1"
  using assms by (simp add: ceiling_unique)

lemma exact_quotient_ceiling:
  fixes D U :: int
  assumes "0 < U"
  shows "\<lceil>(of_int D :: rat) / of_int U\<rceil> = D div U + (if D mod U = 0 then 0 else 1)"
proof -
  have e: "(of_int D :: rat) / of_int U = of_int (D div U) + of_int (D mod U) / of_int U"
    using assms by (simp add: field_simps flip: of_int_mult of_int_add)
  have m: "0 \<le> D mod U" "D mod U < U" using assms by simp_all
  show ?thesis
  proof (cases "D mod U = 0")
    case True
    then show ?thesis using e by simp
  next
    case False
    then have "0 < D mod U" using m by linarith
    then have "(0::rat) < of_int (D mod U) / of_int U" using assms by (intro divide_pos_pos) simp_all
    moreover have "(of_int (D mod U) :: rat) / of_int U < 1" using m assms by simp
    ultimately have "\<lceil>(of_int D :: rat) / of_int U\<rceil> = D div U + 1"
      unfolding e by (intro ceiling_between) simp_all
    then show ?thesis using False by simp
  qed
qed

lemma f64_quotient_ceiling:
  fixes D U :: int
  assumes "0 \<le> D" "0 < U" "U \<le> 2 ^ G" "D div U + 1 \<le> 2 ^ K" "K + G \<le> 52"
  shows "\<lceil>f64_add (f64_of_int (D sdiv U)) (f64_div (f64_of_int (D smod U)) (of_int U))\<rceil>
       = \<lceil>(of_int D :: rat) / of_int U\<rceil>"
proof -
  define H where "H = f64_add (f64_of_int (D sdiv U)) (f64_div (f64_of_int (D smod U)) (of_int U))"
  have b: "(D mod U = 0 \<longrightarrow> H = of_int (D div U))
       \<and> (D mod U \<noteq> 0 \<longrightarrow> of_int (D div U) + 1 / 2 ^ G \<le> H \<and> H \<le> of_int (D div U) + 1 - 1 / 2 ^ G)"
    unfolding H_def using assms by (rule f64_quotient_bounds)
  have gpos: "(0::rat) < 1 / 2 ^ G" by simp
  have "\<lceil>H\<rceil> = D div U + (if D mod U = 0 then 0 else 1)"
  proof (cases "D mod U = 0")
    case True
    then show ?thesis using b by simp
  next
    case False
    then have lo: "of_int (D div U) + 1 / 2 ^ G \<le> H" and hi: "H \<le> of_int (D div U) + 1 - 1 / 2 ^ G"
      using b by simp_all
    have "of_int (D div U) < H" using lo gpos by linarith
    moreover have "H \<le> of_int (D div U) + 1" using hi gpos by linarith
    ultimately have "\<lceil>H\<rceil> = D div U + 1" by (rule ceiling_between)
    then show ?thesis using False by simp
  qed
  then show ?thesis unfolding H_def using exact_quotient_ceiling [OF assms(2), of D] by simp
qed

lemma Duration_Minutes_ceiling:
  assumes "0 \<le> sint d" "sint d < 3600000000000"
  shows "\<lceil>Duration_Minutes d\<rceil> = \<lceil>(of_int (sint d) :: rat) / 60000000000\<rceil>"
proof -
  have "sint d div 60000000000 < 60" using assms by linarith
  then have "sint d div 60000000000 + 1 \<le> 2 ^ 6" by simp
  moreover have "(60000000000::int) \<le> 2 ^ 36" by simp
  ultimately have "\<lceil>f64_add (f64_of_int (sint d sdiv 60000000000))
      (f64_div (f64_of_int (sint d smod 60000000000)) (of_int 60000000000))\<rceil>
       = \<lceil>(of_int (sint d) :: rat) / of_int 60000000000\<rceil>"
    using assms(1) by (intro f64_quotient_ceiling [where G = 36 and K = 6]) simp_all
  then show ?thesis by (simp add: Duration_Minutes_def)
qed

lemma Duration_Hours_ceiling:
  assumes "0 \<le> sint d" "sint d < 86400000000000"
  shows "\<lceil>Duration_Hours d\<rceil> = \<lceil>(of_int (sint d) :: rat) / 3600000000000\<rceil>"
proof -
  have "sint d div 3600000000000 < 24" using assms by linarith
  then have "sint d div 3600000000000 + 1 \<le> 2 ^ 5" by simp
  moreover have "(3600000000000::int) \<le> 2 ^ 42" by simp
  ultimately have "\<lceil>f64_add (f64_of_int (sint d sdiv 3600000000000))
      (f64_div (f64_of_int (sint d smod 3600000000000)) (of_int 3600000000000))\<rceil>
       = \<lceil>(of_int (sint d) :: rat) / of_int 3600000000000\<rceil>"
    using assms(1) by (intro f64_quotient_ceiling [where G = 42 and K = 5]) simp_all
  then show ?thesis by (simp add: Duration_Hours_def)
qed




lemma round_f64_of_int: "0 \<le> n \<Longrightarrow> n < 2 ^ 53 \<Longrightarrow> round_f64 (of_int n) = of_int n"
  using f64_of_int_exact [of n] by (simp add: f64_of_int_def)

lemma Duration_Days_ceiling:
  assumes "0 \<le> sint d" "sint d < 3600000000000000"
  shows "\<lceil>f64_div (Duration_Hours d) 24\<rceil> = \<lceil>(of_int (sint d) :: rat) / 86400000000000\<rceil>"
proof -
  define D where "D = sint d"
  define h where "h = D div 3600000000000"
  define n where "n = D mod 3600000000000"
  define k where "k = h div 24"
  define r where "r = h mod 24"
  define H where "H = Duration_Hours d"
  have D0: "0 \<le> D" and Dlt: "D < 3600000000000000" using assms by (simp_all add: D_def)
  have h0: "0 \<le> h" and hlt: "h < 1000" using D0 Dlt unfolding h_def by linarith+
  have n0: "0 \<le> n" unfolding n_def by simp
  have k0: "0 \<le> k" and klt: "k < 42" using h0 hlt unfolding k_def by linarith+
  have r0: "0 \<le> r" and rlt: "r < 24" unfolding r_def by simp_all
  have hkr: "h = 24 * k + r" unfolding k_def r_def by simp
  have b: "(n = 0 \<longrightarrow> H = of_int h)
       \<and> (n \<noteq> 0 \<longrightarrow> of_int h + 1 / 2 ^ 42 \<le> H \<and> H \<le> of_int h + 1 - 1 / 2 ^ 42)"
  proof -
    have "h + 1 \<le> 2 ^ 10" using hlt by simp
    moreover have "(3600000000000::int) \<le> 2 ^ 42" by simp
    ultimately have "(D mod 3600000000000 = 0 \<longrightarrow>
          f64_add (f64_of_int (D sdiv 3600000000000))
            (f64_div (f64_of_int (D smod 3600000000000)) (of_int 3600000000000))
          = of_int (D div 3600000000000))
       \<and> (D mod 3600000000000 \<noteq> 0 \<longrightarrow>
          of_int (D div 3600000000000) + 1 / 2 ^ 42
            \<le> f64_add (f64_of_int (D sdiv 3600000000000))
                (f64_div (f64_of_int (D smod 3600000000000)) (of_int 3600000000000))
          \<and> f64_add (f64_of_int (D sdiv 3600000000000))
                (f64_div (f64_of_int (D smod 3600000000000)) (of_int 3600000000000))
            \<le> of_int (D div 3600000000000) + 1 - 1 / 2 ^ 42)"
      using D0 unfolding h_def by (intro f64_quotient_bounds [where G = 42 and K = 10]) simp_all
    then show ?thesis by (simp add: H_def Duration_Hours_def D_def h_def n_def)
  qed
  have ex: "\<lceil>(of_int D :: rat) / 86400000000000\<rceil> = k + (if r = 0 \<and> n = 0 then 0 else 1)"
  proof -
    have "D div 86400000000000 = k"
      using zdiv_zmult2_eq [of 24 D 3600000000000] by (simp add: k_def h_def)
    moreover have "D mod 86400000000000 = 3600000000000 * r + n"
      using zmod_zmult2_eq [of 24 D 3600000000000] by (simp add: r_def h_def n_def)
    moreover have "3600000000000 * r + n = 0 \<longleftrightarrow> r = 0 \<and> n = 0" using r0 n0 by linarith
    ultimately show ?thesis
      using exact_quotient_ceiling [of 86400000000000 D] by simp
  qed
  have "\<lceil>round_f64 (H / 24)\<rceil> = k + (if r = 0 \<and> n = 0 then 0 else 1)"
  proof (cases "r = 0 \<and> n = 0")
    case True
    then have "H / 24 = of_int k" using b hkr by simp
    moreover have "round_f64 (of_int k) = of_int k" using k0 klt by (intro round_f64_of_int) simp_all
    ultimately show ?thesis using True by simp
  next
    case False
    define x where "x = H / 24"
    have a47: "(1::rat) / 2 ^ 47 \<le> 1 / 2 ^ 42 / 24" "(1::rat) / 2 ^ 47 \<le> 1 / 24" "(0::rat) < 1 / 2 ^ 47"
      by simp_all
    have Hlo: "of_int h + (if n = 0 then 0 else 1 / 2 ^ 42) \<le> H" using b by auto
    have Hhi: "H \<le> of_int h + 1 - 1 / 2 ^ 42" using b by (cases "n = 0") auto
    have hr: "(of_int h :: rat) = 24 * of_int k + of_int r" using hkr by simp
    have rr: "(0::rat) \<le> of_int r" "(of_int r :: rat) \<le> 23" using r0 rlt by simp_all
    have xlo: "of_int k + 1 / 2 ^ 47 \<le> x"
    proof (cases "r = 0")
      case True
      then have "n \<noteq> 0" using False by simp
      then have "24 * of_int k + 1 / 2 ^ 42 \<le> H" using Hlo hr True by simp
      then have "of_int k + 1 / 2 ^ 42 / 24 \<le> x" unfolding x_def by (simp add: field_simps)
      then show ?thesis using a47(1) by linarith
    next
      case False
      then have "(1::rat) \<le> of_int r" using r0 by (metis of_int_1_le_iff zless_imp_add1_zle order_less_le zero_less_imp_eq_int int_one_le_iff_zero_less less_le)
      moreover have "24 * of_int k + of_int r \<le> H" using Hlo hr by (cases "n = 0") auto
      ultimately have "24 * of_int k + 1 \<le> H" by linarith
      then have "of_int k + 1 / 24 \<le> x" unfolding x_def by (simp add: field_simps)
      then show ?thesis using a47(2) by linarith
    qed
    have xhi: "x \<le> of_int k + 1 - 1 / 2 ^ 47"
    proof -
      have "H \<le> 24 * of_int k + 24 - 1 / 2 ^ 42" using Hhi hr rr by linarith
      then have "x \<le> of_int k + 1 - 1 / 2 ^ 42 / 24" unfolding x_def by (simp add: field_simps)
      then show ?thesis using a47(1) by linarith
    qed
    have kk: "(0::rat) \<le> of_int k" using k0 by simp
    have xpos: "0 < x" using xlo a47(3) kk by linarith
    have "x < of_int k + 1" using xhi a47(3) by linarith
    also have "\<dots> \<le> 2 ^ 6" using klt by (simp add: of_int_le_numeral_iff [symmetric] del: of_int_le_numeral_iff) 
    finally have xlt: "x < 2 ^ 6" .
    have p47: "pow2 (- 47) = 1 / 2 ^ 47" by (simp add: pow2_def)
    have lo: "of_int (k * 2 ^ 47 + 1) * pow2 (- 47) \<le> round_f64 x"
      using xlo by (intro round_f64_lower [OF xpos xlt]) (simp_all add: p47 field_simps)
    have hi: "round_f64 x \<le> of_int ((k + 1) * 2 ^ 47 - 1) * pow2 (- 47)"
      using xhi by (intro round_f64_upper [OF xpos xlt]) (simp_all add: p47 field_simps)
    have "of_int (k * 2 ^ 47 + 1) * pow2 (- 47) = (of_int k + 1 / 2 ^ 47 :: rat)"
      by (simp add: p47 field_simps)
    moreover have "of_int ((k + 1) * 2 ^ 47 - 1) * pow2 (- 47) = (of_int k + 1 - 1 / 2 ^ 47 :: rat)"
      by (simp add: p47 field_simps)
    ultimately have "of_int k + 1 / 2 ^ 47 \<le> round_f64 x" "round_f64 x \<le> of_int k + 1 - 1 / 2 ^ 47"
      using lo hi by simp_all
    then have "of_int k < round_f64 x" "round_f64 x \<le> of_int k + 1"
      using a47(3) by linarith+
    then have "\<lceil>round_f64 x\<rceil> = k + 1" by (rule ceiling_between)
    then show ?thesis using False by (simp add: x_def)
  qed
  then show ?thesis using ex by (simp add: f64_div_def H_def D_def)
qed

lemma round_f64_minus: "round_f64 (- x) = - round_f64 x"
  by (simp add: round_f64_def Let_def)

lemma f64_of_int_minus: "f64_of_int (- n) = - f64_of_int n"
  by (simp add: f64_of_int_def round_f64_minus)

lemma sdiv_smod_neg:
  fixes D U :: int
  assumes "D \<le> 0" "0 < U"
  shows "D sdiv U = - ((- D) div U)" "D smod U = - ((- D) mod U)"
  using assms by (simp_all add: signed_divide_int_def signed_modulo_int_def sgn_if)

lemma f64_quotient_coarse:
  fixes D U :: int
  assumes "0 \<le> D" "0 < U" "U \<le> 2 ^ 53" "D div U + 1 \<le> 2 ^ 52"
  defines "H \<equiv> f64_add (f64_of_int (D div U)) (f64_div (f64_of_int (D mod U)) (of_int U))"
  shows "of_int (D div U) \<le> H \<and> H \<le> of_int (D div U) + 1 \<and> (D mod U = 0 \<longrightarrow> H = of_int (D div U))"
proof -
  define h where "h = D div U"
  define n where "n = D mod U"
  have n0: "0 \<le> n" and nU: "n < U" using assms(2) by (simp_all add: n_def)
  have h0: "0 \<le> h" using assms(1,2) by (simp add: h_def pos_imp_zdiv_nonneg_iff)
  have nx: "f64_of_int n = of_int n"
    using n0 nU assms(3) by (intro f64_of_int_exact) simp_all
  have hx: "f64_of_int h = of_int h"
    using h0 assms(4) by (intro f64_of_int_exact) (simp_all add: h_def)
  have H: "H = round_f64 (of_int h + round_f64 (of_int n / of_int U))"
    by (simp add: H_def f64_add_def f64_div_def nx hx flip: h_def n_def)
  have Upos: "(0::rat) < of_int U" using assms(2) by simp
  define q where "q = round_f64 (of_int n / of_int U)"
  have q: "0 \<le> q \<and> q \<le> 1 \<and> (n = 0 \<longrightarrow> q = 0)"
  proof (cases "n = 0")
    case True
    then show ?thesis by (simp add: q_def round_f64_def)
  next
    case False
    define x1 where "x1 = (of_int n :: rat) / of_int U"
    have x1pos: "0 < x1" using False n0 Upos by (simp add: x1_def)
    have x1lt: "x1 < 2 ^ 0" using nU Upos by (simp add: x1_def)
    have "of_int 0 * pow2 0 \<le> round_f64 x1"
      using x1pos by (intro round_f64_lower [OF x1pos x1lt]) simp_all
    moreover have "round_f64 x1 \<le> of_int 1 * pow2 0"
      using x1lt by (intro round_f64_upper [OF x1pos x1lt]) (simp_all add: pow2_def)
    ultimately show ?thesis using False by (simp add: q_def x1_def pow2_def)
  qed
  define x2 where "x2 = of_int h + q"
  have hh: "(0::rat) \<le> of_int h" using h0 by simp
  have b: "of_int h \<le> round_f64 x2 \<and> round_f64 x2 \<le> of_int h + 1"
  proof (cases "x2 = 0")
    case True
    then have "of_int h = (0::rat)" using hh q unfolding x2_def by linarith
    then show ?thesis using True by (simp add: round_f64_def)
  next
    case False
    then have x2pos: "0 < x2" using hh q unfolding x2_def by linarith
    have "x2 \<le> of_int (h + 1)" using q by (simp add: x2_def)
    also have "\<dots> \<le> 2 ^ 52" using assms(4) by (metis h_def of_int_le_iff of_int_numeral of_int_power)
    also have "\<dots> < (2::rat) ^ 53" by simp
    finally have x2lt: "x2 < 2 ^ 53" .
    have "of_int h * pow2 0 \<le> round_f64 x2"
      using q by (intro round_f64_lower [OF x2pos x2lt]) (simp_all add: pow2_def x2_def)
    moreover have "round_f64 x2 \<le> of_int (h + 1) * pow2 0"
      using q by (intro round_f64_upper [OF x2pos x2lt]) (simp_all add: pow2_def x2_def)
    ultimately show ?thesis by (simp add: pow2_def)
  qed
  have "n = 0 \<Longrightarrow> round_f64 x2 = of_int h"
    using q hx by (simp add: x2_def f64_of_int_def)
  then show ?thesis using b by (simp add: H x2_def q_def flip: h_def n_def)
qed


lemma f64_quotient_neg:
  fixes D U :: int
  assumes "D \<le> 0" "0 < U"
  shows "f64_add (f64_of_int (D sdiv U)) (f64_div (f64_of_int (D smod U)) (of_int U))
       = - f64_add (f64_of_int ((- D) div U)) (f64_div (f64_of_int ((- D) mod U)) (of_int U))"
proof -
  have "f64_div (- a) b = - f64_div a b" for a b
    by (simp add: f64_div_def round_f64_minus)
  moreover have "f64_add (- a) (- b) = - f64_add a b" for a b
    using round_f64_minus [of "a + b"] by (simp add: f64_add_def)
  ultimately show ?thesis
    using assms by (simp add: sdiv_smod_neg f64_of_int_minus)
qed

lemma f64_quotient_pos:
  fixes D U :: int
  assumes "0 \<le> D" "0 < U"
  shows "f64_add (f64_of_int (D sdiv U)) (f64_div (f64_of_int (D smod U)) (of_int U))
       = f64_add (f64_of_int (D div U)) (f64_div (f64_of_int (D mod U)) (of_int U))"
  using assms by (simp add: sdiv_smod_nonneg)

lemma exact_quotient_ceiling_neg:
  fixes D U :: int
  shows "\<lceil>(of_int D :: rat) / of_int U\<rceil> = - ((- D) div U)"
proof -
  have "\<lceil>(of_int D :: rat) / of_int U\<rceil> = - \<lfloor>(of_int (- D) :: rat) / of_int U\<rfloor>"
    by (simp add: ceiling_def)
  then show ?thesis by (simp only: floor_divide_of_int_eq)
qed

lemma f64_quotient_range:
  fixes D U :: int
  assumes "0 < U" "U \<le> 2 ^ 53" "\<bar>D\<bar> div U + 1 \<le> 2 ^ 52"
  defines "H \<equiv> f64_add (f64_of_int (D sdiv U)) (f64_div (f64_of_int (D smod U)) (of_int U))"
  shows "\<lceil>H\<rceil> = \<lceil>(of_int D :: rat) / of_int U\<rceil> \<or> \<lceil>H\<rceil> = \<lceil>(of_int D :: rat) / of_int U\<rceil> - 1"
proof (cases "0 \<le> D")
  case True
  define h where "h = D div U"
  have H: "H = f64_add (f64_of_int (D div U)) (f64_div (f64_of_int (D mod U)) (of_int U))"
    unfolding H_def using True assms(1) by (rule f64_quotient_pos)
  have b: "of_int h \<le> H \<and> H \<le> of_int h + 1 \<and> (D mod U = 0 \<longrightarrow> H = of_int h)"
    unfolding H h_def using True assms(1,2,3) by (intro f64_quotient_coarse) simp_all
  have c: "\<lceil>(of_int D :: rat) / of_int U\<rceil> = h + (if D mod U = 0 then 0 else 1)"
    unfolding h_def using assms(1) by (rule exact_quotient_ceiling)
  show ?thesis
  proof (cases "D mod U = 0")
    case True
    then show ?thesis using b c by simp
  next
    case False
    have "h \<le> \<lceil>H\<rceil>" using b by (simp add: le_ceiling_iff)
    moreover have "\<lceil>H\<rceil> \<le> h + 1" using b by (simp add: ceiling_le_iff)
    ultimately show ?thesis using c False by auto
  qed
next
  case False
  define D' where "D' = - D"
  define h where "h = D' div U"
  define H' where "H' = f64_add (f64_of_int (D' div U)) (f64_div (f64_of_int (D' mod U)) (of_int U))"
  have D': "0 \<le> D'" "\<bar>D\<bar> = D'" using False by (simp_all add: D'_def)
  have H: "H = - H'"
    unfolding H_def H'_def D'_def using False assms(1) by (intro f64_quotient_neg) simp_all
  have b: "of_int h \<le> H' \<and> H' \<le> of_int h + 1 \<and> (D' mod U = 0 \<longrightarrow> H' = of_int h)"
    unfolding H'_def h_def using D' assms(1,2,3) by (intro f64_quotient_coarse) simp_all
  have c: "\<lceil>(of_int D :: rat) / of_int U\<rceil> = - h"
    unfolding h_def D'_def by (rule exact_quotient_ceiling_neg)
  have "\<lceil>H\<rceil> = - \<lfloor>H'\<rfloor>" by (simp add: H ceiling_def)
  moreover have "h \<le> \<lfloor>H'\<rfloor>" using b by (simp add: le_floor_iff)
  moreover have "\<lfloor>H'\<rfloor> \<le> h + 1" using b by (simp add: floor_le_iff)
  ultimately show ?thesis using c by auto
qed

lemma f64_quotient_ceiling_neg:
  fixes D U :: int
  assumes "D \<le> 0" "0 < U" "U \<le> 2 ^ G" "(- D) div U + 1 \<le> 2 ^ K" "K + G \<le> 52"
  shows "\<lceil>f64_add (f64_of_int (D sdiv U)) (f64_div (f64_of_int (D smod U)) (of_int U))\<rceil>
       = \<lceil>(of_int D :: rat) / of_int U\<rceil>"
proof -
  define D' where "D' = - D"
  define h where "h = D' div U"
  define H' where "H' = f64_add (f64_of_int (D' sdiv U)) (f64_div (f64_of_int (D' smod U)) (of_int U))"
  have D': "0 \<le> D'" using assms(1) by (simp add: D'_def)
  have H: "f64_add (f64_of_int (D sdiv U)) (f64_div (f64_of_int (D smod U)) (of_int U)) = - H'"
    unfolding H'_def using f64_quotient_neg [OF assms(1,2)] f64_quotient_pos [OF D' assms(2)]
    by (simp add: D'_def)
  have b: "(D' mod U = 0 \<longrightarrow> H' = of_int h)
       \<and> (D' mod U \<noteq> 0 \<longrightarrow> of_int h + 1 / 2 ^ G \<le> H' \<and> H' \<le> of_int h + 1 - 1 / 2 ^ G)"
    unfolding H'_def h_def using D' assms(2-5) by (intro f64_quotient_bounds) (simp_all add: D'_def)
  have gpos: "(0::rat) < 1 / 2 ^ G" by simp
  have "\<lfloor>H'\<rfloor> = h"
  proof (cases "D' mod U = 0")
    case True
    then show ?thesis using b by simp
  next
    case False
    then have "of_int h \<le> H'" "H' < of_int h + 1" using b gpos by linarith+
    then show ?thesis by (simp add: floor_unique)
  qed
  moreover have "\<lceil>(of_int D :: rat) / of_int U\<rceil> = - h"
    unfolding h_def D'_def by (rule exact_quotient_ceiling_neg)
  ultimately show ?thesis unfolding H by (simp add: ceiling_def)
qed


lemma sint_int64_range: "- (2 ^ 63) \<le> sint (d::int64)" "sint (d::int64) < 2 ^ 63"
  using sint_ge [of d] sint_less [of d] by simp_all

lemma Duration_Minutes_range:
  "\<lceil>Duration_Minutes d\<rceil> = \<lceil>(of_int (sint d) :: rat) / 60000000000\<rceil>
   \<or> \<lceil>Duration_Minutes d\<rceil> = \<lceil>(of_int (sint d) :: rat) / 60000000000\<rceil> - 1"
proof -
  have "\<bar>sint d\<bar> \<le> 2 ^ 63" using sint_int64_range [of d] by simp
  then have "\<bar>sint d\<bar> div 60000000000 + 1 \<le> 2 ^ 52" by simp
  then have "\<lceil>f64_add (f64_of_int (sint d sdiv 60000000000))
        (f64_div (f64_of_int (sint d smod 60000000000)) (of_int 60000000000))\<rceil>
      = \<lceil>(of_int (sint d) :: rat) / of_int 60000000000\<rceil>
    \<or> \<lceil>f64_add (f64_of_int (sint d sdiv 60000000000))
        (f64_div (f64_of_int (sint d smod 60000000000)) (of_int 60000000000))\<rceil>
      = \<lceil>(of_int (sint d) :: rat) / of_int 60000000000\<rceil> - 1"
    by (intro f64_quotient_range) simp_all
  then show ?thesis by (simp add: Duration_Minutes_def)
qed

lemma Duration_Minutes_ceiling_neg:
  assumes "- 3600000000000000 < sint d" "sint d \<le> 0"
  shows "\<lceil>Duration_Minutes d\<rceil> = \<lceil>(of_int (sint d) :: rat) / 60000000000\<rceil>"
proof -
  have "(- sint d) div 60000000000 < 60000" using assms by linarith
  then have "(- sint d) div 60000000000 + 1 \<le> 2 ^ 16" by simp
  moreover have "(60000000000::int) \<le> 2 ^ 36" by simp
  ultimately have "\<lceil>f64_add (f64_of_int (sint d sdiv 60000000000))
      (f64_div (f64_of_int (sint d smod 60000000000)) (of_int 60000000000))\<rceil>
       = \<lceil>(of_int (sint d) :: rat) / of_int 60000000000\<rceil>"
    using assms(2) by (intro f64_quotient_ceiling_neg [where G = 36 and K = 16]) simp_all
  then show ?thesis by (simp add: Duration_Minutes_def)
qed

lemma Duration_Days_range:
  assumes "86400000000000 \<le> sint d"
  shows "(\<lceil>f64_div (Duration_Hours d) 24\<rceil> = \<lceil>(of_int (sint d) :: rat) / 86400000000000\<rceil>
          \<or> \<lceil>f64_div (Duration_Hours d) 24\<rceil> = \<lceil>(of_int (sint d) :: rat) / 86400000000000\<rceil> - 1)
       \<and> 1 \<le> \<lceil>f64_div (Duration_Hours d) 24\<rceil>"
proof -
  define D where "D = sint d"
  define h where "h = D div 3600000000000"
  define n where "n = D mod 3600000000000"
  define k where "k = h div 24"
  define r where "r = h mod 24"
  define H where "H = Duration_Hours d"
  have D0: "0 \<le> D" and Dge: "86400000000000 \<le> D" and Dlt: "D < 2 ^ 63"
    using assms sint_int64_range [of d] by (simp_all add: D_def)
  have h24: "24 \<le> h" and hlt: "h < 2 ^ 22" using Dge Dlt unfolding h_def by simp_all
  have n0: "0 \<le> n" unfolding n_def by simp
  have k1: "1 \<le> k" and klt: "k < 2 ^ 22" using h24 hlt unfolding k_def by simp_all
  have r0: "0 \<le> r" and rlt: "r < 24" unfolding r_def by simp_all
  have hkr: "h = 24 * k + r" unfolding k_def r_def by simp
  have b: "of_int h \<le> H \<and> H \<le> of_int h + 1 \<and> (n = 0 \<longrightarrow> H = of_int h)"
  proof -
    have "h + 1 \<le> 2 ^ 52" using hlt by simp
    then have "of_int (D div 3600000000000)
          \<le> f64_add (f64_of_int (D div 3600000000000))
                (f64_div (f64_of_int (D mod 3600000000000)) (of_int 3600000000000))
       \<and> f64_add (f64_of_int (D div 3600000000000))
                (f64_div (f64_of_int (D mod 3600000000000)) (of_int 3600000000000))
          \<le> of_int (D div 3600000000000) + 1
       \<and> (D mod 3600000000000 = 0 \<longrightarrow>
            f64_add (f64_of_int (D div 3600000000000))
                (f64_div (f64_of_int (D mod 3600000000000)) (of_int 3600000000000))
            = of_int (D div 3600000000000))"
      using D0 unfolding h_def by (intro f64_quotient_coarse) simp_all
    then show ?thesis using D0
      by (simp add: H_def Duration_Hours_def D_def h_def n_def sdiv_smod_nonneg)
  qed
  have ex: "\<lceil>(of_int D :: rat) / 86400000000000\<rceil> = k + (if r = 0 \<and> n = 0 then 0 else 1)"
  proof -
    have "D div 86400000000000 = k"
      using zdiv_zmult2_eq [of 24 D 3600000000000] by (simp add: k_def h_def)
    moreover have "D mod 86400000000000 = 3600000000000 * r + n"
      using zmod_zmult2_eq [of 24 D 3600000000000] by (simp add: r_def h_def n_def)
    moreover have "3600000000000 * r + n = 0 \<longleftrightarrow> r = 0 \<and> n = 0" using r0 n0 by linarith
    ultimately show ?thesis
      using exact_quotient_ceiling [of 86400000000000 D] by simp
  qed
  define x where "x = H / 24"
  have hr: "(of_int h :: rat) = 24 * of_int k + of_int r" using hkr by simp
  have rr: "(0::rat) \<le> of_int r" "(of_int r :: rat) \<le> 23" using r0 rlt by simp_all
  have xlo: "of_int k \<le> x" using b hr rr unfolding x_def by (simp add: field_simps)
  have xhi: "x \<le> of_int k + 1" using b hr rr unfolding x_def by (simp add: field_simps)
  have kk: "(1::rat) \<le> of_int k" using k1 by simp
  have xpos: "0 < x" using xlo kk by linarith
  have "of_int k + 1 = (of_int (k + 1) :: rat)" by simp
  also have "\<dots> \<le> 2 ^ 22" using klt by (metis of_int_le_iff of_int_numeral of_int_power zless_imp_add1_zle)
  also have "\<dots> < (2::rat) ^ 53" by simp
  finally have xlt: "x < 2 ^ 53" using xhi by linarith
  have lo: "of_int k * pow2 0 \<le> round_f64 x"
    using xlo by (intro round_f64_lower [OF xpos xlt]) (simp_all add: pow2_def)
  have hi: "round_f64 x \<le> of_int (k + 1) * pow2 0"
    using xhi by (intro round_f64_upper [OF xpos xlt]) (simp_all add: pow2_def)
  have c1: "k \<le> \<lceil>round_f64 x\<rceil>" using lo by (simp add: le_ceiling_iff pow2_def)
  have c2: "\<lceil>round_f64 x\<rceil> \<le> k + 1" using hi by (simp add: ceiling_le_iff pow2_def)
  have c3: "\<lceil>round_f64 x\<rceil> = k" if "r = 0 \<and> n = 0"
  proof -
    have "x = of_int k" using that b hr by (simp add: x_def)
    moreover have "round_f64 (of_int k) = of_int k" using k1 klt by (intro round_f64_of_int) simp_all
    ultimately show ?thesis by simp
  qed
  define R where "R = \<lceil>round_f64 x\<rceil>"
  define C where "C = \<lceil>(of_int D :: rat) / 86400000000000\<rceil>"
  have "(R = C \<or> R = C - 1) \<and> 1 \<le> R"
    using c1 c2 c3 ex k1 unfolding R_def [symmetric] C_def [symmetric]
    by (cases "r = 0 \<and> n = 0") auto
  moreover have "f64_div (Duration_Hours d) 24 = round_f64 x" by (simp add: f64_div_def x_def H_def)
  ultimately show ?thesis unfolding R_def C_def D_def by simp
qed

section \<open>Intervals\<close>

text \<open>
  C3, as stated, fails. \<open>@every 0s\<close> and \<open>@every -1ns\<close> are accepted and give the
  schedule whose fields are all zero: no repeat field is populated. And the number of
  days is computed in \<^verbatim>\<open>float64\<close>: 4104 hours and 1 nanosecond are 171 days and a
  nanosecond, \<^verbatim>\<open>Duration.Hours\<close> rounds them to 4104, and \<^verbatim>\<open>parseDescriptor\<close> gives 171
  days where the quotient rounded up is 172.
\<close>

theorem parseDescriptor_every_counterexample:
  "parseDescriptor ''@every 0s'' = ok Schedule_zero
   \<and> parseDescriptor ''@every -1ns'' = ok Schedule_zero
   \<and> repeatCount Schedule_zero = 0
   \<and> ParseDuration ''4104h1ns'' = Some (Inr 14774400000000001)
   \<and> parseDescriptor ''@every 4104h1ns'' = ok (Schedule_zero\<lparr>RepeatDate := 171\<rparr>)
   \<and> \<lceil>(14774400000000001 :: rat) / 86400000000000\<rceil> = 172"
  by code_simp

lemma sint_word_of_int_range:
  "- (2 ^ 63) \<le> k \<Longrightarrow> k < 2 ^ 63 \<Longrightarrow> sint (word_of_int k :: int64) = k"
proof -
  assume a: "- (2 ^ 63) \<le> k" "k < 2 ^ 63"
  have "sint (word_of_int k :: int64) = signed_take_bit 63 k" by (simp add: sint_sbintrunc')
  also have "\<dots> = k" using a by (intro signed_take_bit_int_eq_self) simp_all
  finally show ?thesis .
qed

lemma quotient_ceiling_small:
  fixes D :: int
  assumes "- (2 ^ 63) \<le> D" "D < 2 ^ 63" "60000000000 \<le> U"
  shows "- (2 ^ 62) \<le> \<lceil>(of_int D :: rat) / of_int U\<rceil>" "\<lceil>(of_int D :: rat) / of_int U\<rceil> \<le> 2 ^ 62"
proof -
  have U: "0 < U" using assms(3) by simp
  have c: "\<lceil>(of_int D :: rat) / of_int U\<rceil> = D div U + (if D mod U = 0 then 0 else 1)"
    using U by (rule exact_quotient_ceiling)
  have "D div U \<le> 2 ^ 33"
  proof -
    have "D div U \<le> 2 ^ 63 div U" using assms(2) U by (intro zdiv_mono1) simp_all
    also have "\<dots> \<le> 2 ^ 63 div 60000000000" using assms(3) by (intro zdiv_mono2) simp_all
    also have "\<dots> \<le> 2 ^ 33" by simp
    finally show ?thesis .
  qed
  moreover have "- (2 ^ 33) \<le> D div U"
  proof -
    have "- (2 ^ 63) div U \<le> D div U" using assms(1) U by (intro zdiv_mono1) simp_all
    moreover have "- (2 ^ 63) div 60000000000 \<le> - (2 ^ 63) div U"
      using assms(3) by (intro zdiv_mono2_neg) simp_all
    ultimately show ?thesis by simp
  qed
  ultimately show "- (2 ^ 62) \<le> \<lceil>(of_int D :: rat) / of_int U\<rceil>"
    "\<lceil>(of_int D :: rat) / of_int U\<rceil> \<le> 2 ^ 62"
    unfolding c by simp_all
qed

lemma parseDescriptor_every_unfold:
  assumes "ParseDuration text = Some (Inr d)"
  shows "parseDescriptor (''@every '' @ text) =
           ok (if sint d < 3600000000000
               then Schedule_zero\<lparr>RepeatMin := int64_Ceil (Duration_Minutes d)\<rparr>
               else if sint d < 86400000000000
               then Schedule_zero\<lparr>RepeatHour := int64_Ceil (Duration_Hours d)\<rparr>
               else Schedule_zero\<lparr>RepeatDate := int64_Ceil (f64_div (Duration_Hours d) 24)\<rparr>)"
proof -
  have h: "time_Hour * 24 = 86400000000000" "time_Hour = 3600000000000"
    by (simp_all add: time_Hour_def)
  show ?thesis
    using assms by (simp add: parseDescriptor_def HasPrefix_def h word_sless_alt)
qed

lemma repeatCount_one:
  "v \<noteq> 0 \<Longrightarrow> repeatCount (Schedule_zero\<lparr>RepeatMin := v\<rparr>) = 1"
  "v \<noteq> 0 \<Longrightarrow> repeatCount (Schedule_zero\<lparr>RepeatHour := v\<rparr>) = 1"
  "v \<noteq> 0 \<Longrightarrow> repeatCount (Schedule_zero\<lparr>RepeatDate := v\<rparr>) = 1"
  "repeatCount (Schedule_zero\<lparr>RepeatMin := 0\<rparr>) = 0"
  by (simp_all add: repeatCount_def Schedule_zero_def)

lemma sint_nonzero: "sint (v::int64) \<noteq> 0 \<Longrightarrow> v \<noteq> 0"
  by auto

lemma minutes_ceiling_zero:
  fixes D :: int
  shows "\<lceil>(of_int D :: rat) / 60000000000\<rceil> = 0 \<longleftrightarrow> - 60000000000 < D \<and> D \<le> 0"
proof -
  have "\<lceil>(of_int D :: rat) / of_int 60000000000\<rceil> = - ((- D) div 60000000000)"
    by (rule exact_quotient_ceiling_neg)
  then show ?thesis by (auto simp add: zdiv_eq_0_iff)
qed

lemma minutes_ceiling_neg:
  fixes D :: int
  shows "D \<le> - 60000000000 \<Longrightarrow> \<lceil>(of_int D :: rat) / 60000000000\<rceil> \<le> - 1"
proof -
  assume a: "D \<le> - 60000000000"
  have "\<lceil>(of_int D :: rat) / of_int 60000000000\<rceil> = - ((- D) div 60000000000)"
    by (rule exact_quotient_ceiling_neg)
  moreover have "1 \<le> (- D) div 60000000000" using a by linarith
  ultimately show ?thesis by simp
qed

lemma hours_ceiling_pos:
  fixes D :: int
  shows "3600000000000 \<le> D \<Longrightarrow> 1 \<le> \<lceil>(of_int D :: rat) / 3600000000000\<rceil>"
proof -
  assume a: "3600000000000 \<le> D"
  have "\<lceil>(of_int D :: rat) / of_int 3600000000000\<rceil>
      = D div 3600000000000 + (if D mod 3600000000000 = 0 then 0 else 1)"
    by (rule exact_quotient_ceiling) simp
  moreover have "1 \<le> D div 3600000000000" using a by linarith
  ultimately show ?thesis by simp
qed

lemma every_minutes:
  assumes "sint d < 3600000000000"
  defines "v \<equiv> int64_Ceil (Duration_Minutes d)"
  defines "c \<equiv> \<lceil>rat_of_int (sint d) / 60000000000\<rceil>"
  shows "(sint v = c \<or> sint v = c - 1)
       \<and> (- 3600000000000000 < sint d \<longrightarrow> sint v = c)
       \<and> (v = 0 \<longleftrightarrow> - 60000000000 < sint d \<and> sint d \<le> 0)"
proof -
  define R where "R = \<lceil>Duration_Minutes d\<rceil>"
  have cb: "- (2 ^ 62) \<le> c" "c \<le> 2 ^ 62"
    using quotient_ceiling_small [of "sint d" 60000000000] sint_int64_range [of d]
    by (simp_all add: c_def)
  have rng: "R = c \<or> R = c - 1"
    unfolding R_def c_def by (rule Duration_Minutes_range)
  then have "- (2 ^ 63) \<le> R" "R < 2 ^ 63" using cb by auto
  then have sv: "sint v = R" unfolding v_def int64_Ceil_def R_def by (rule sint_word_of_int_range)
  have ex: "R = c" if "- 3600000000000000 < sint d"
  proof (cases "0 \<le> sint d")
    case True
    then show ?thesis unfolding R_def c_def using assms(1) by (intro Duration_Minutes_ceiling) simp_all
  next
    case False
    then show ?thesis unfolding R_def c_def using that by (intro Duration_Minutes_ceiling_neg) simp_all
  qed
  have cdiv: "c = sint d div 60000000000 + (if sint d mod 60000000000 = 0 then 0 else 1)"
    unfolding c_def using exact_quotient_ceiling [of 60000000000 "sint d"] by simp
  have z: "R = 0 \<longleftrightarrow> - 60000000000 < sint d \<and> sint d \<le> 0"
  proof (cases "- 3600000000000000 < sint d")
    case True
    have "c = 0 \<longleftrightarrow> - 60000000000 < sint d \<and> sint d \<le> 0"
      unfolding c_def by (rule minutes_ceiling_zero)
    then show ?thesis using ex [OF True] by simp
  next
    case False
    then have "sint d \<le> - 60000000000" by simp
    then have "c \<le> - 1" unfolding c_def by (rule minutes_ceiling_neg)
    then show ?thesis using rng False by auto
  qed
  have "v = 0 \<longleftrightarrow> sint v = 0" by (metis sint_0 signed_word_eqI)
  then show ?thesis using sv rng ex z by auto
qed

lemma every_hours:
  assumes "3600000000000 \<le> sint d" "sint d < 86400000000000"
  defines "v \<equiv> int64_Ceil (Duration_Hours d)"
  shows "sint v = \<lceil>rat_of_int (sint d) / 3600000000000\<rceil> \<and> v \<noteq> 0"
proof -
  define c where "c = \<lceil>rat_of_int (sint d) / 3600000000000\<rceil>"
  have R: "\<lceil>Duration_Hours d\<rceil> = c"
    unfolding c_def using assms(1,2) by (intro Duration_Hours_ceiling) simp_all
  have c1: "1 \<le> c" unfolding c_def using assms(1) by (rule hours_ceiling_pos)
  have c2: "c \<le> 2 ^ 62"
    using quotient_ceiling_small [of "sint d" 3600000000000] sint_int64_range [of d]
    by (simp add: c_def)
  have sv: "sint v = c" unfolding v_def int64_Ceil_def R using c1 c2
    by (intro sint_word_of_int_range) simp_all
  then have "v \<noteq> 0" using c1 by auto
  then show ?thesis using sv by (simp add: c_def)
qed

lemma every_days:
  assumes "86400000000000 \<le> sint d"
  defines "v \<equiv> int64_Ceil (f64_div (Duration_Hours d) 24)"
  defines "c \<equiv> \<lceil>rat_of_int (sint d) / 86400000000000\<rceil>"
  shows "(sint v = c \<or> sint v = c - 1)
       \<and> (sint d < 3600000000000000 \<longrightarrow> sint v = c) \<and> v \<noteq> 0"
proof -
  define R where "R = \<lceil>f64_div (Duration_Hours d) 24\<rceil>"
  have rng: "(R = c \<or> R = c - 1) \<and> 1 \<le> R"
    unfolding R_def c_def using assms(1) by (rule Duration_Days_range)
  have cb: "c \<le> 2 ^ 62"
    using quotient_ceiling_small [of "sint d" 86400000000000] sint_int64_range [of d]
    by (simp add: c_def)
  have "- (2 ^ 63) \<le> R" "R < 2 ^ 63" using rng cb by auto
  then have sv: "sint v = R" unfolding v_def int64_Ceil_def R_def by (rule sint_word_of_int_range)
  have ex: "R = c" if "sint d < 3600000000000000"
    unfolding R_def c_def using assms(1) that by (intro Duration_Days_ceiling) simp_all
  have "v \<noteq> 0" using sv rng by auto
  then show ?thesis using sv rng ex by auto
qed

lemma every_schedule:
  assumes "ParseDuration text = Some (Inr d)"
  shows "\<exists>s. parseDescriptor (''@every '' @ text) = ok s
      \<and> Second s = 0 \<and> Minute s = 0 \<and> Hour s = 0 \<and> Dom s = 0 \<and> Month s = 0 \<and> Dow s = 0
      \<and> Location s = None
      \<and> (sint d < 3600000000000 \<longrightarrow>
           RepeatHour s = 0 \<and> RepeatDate s = 0
           \<and> (sint (RepeatMin s) = \<lceil>rat_of_int (sint d) / 60000000000\<rceil>
              \<or> sint (RepeatMin s) = \<lceil>rat_of_int (sint d) / 60000000000\<rceil> - 1)
           \<and> (- 3600000000000000 < sint d
                \<longrightarrow> sint (RepeatMin s) = \<lceil>rat_of_int (sint d) / 60000000000\<rceil>))
      \<and> (3600000000000 \<le> sint d \<and> sint d < 86400000000000 \<longrightarrow>
           RepeatMin s = 0 \<and> RepeatDate s = 0
           \<and> sint (RepeatHour s) = \<lceil>rat_of_int (sint d) / 3600000000000\<rceil>)
      \<and> (86400000000000 \<le> sint d \<longrightarrow>
           RepeatMin s = 0 \<and> RepeatHour s = 0
           \<and> (sint (RepeatDate s) = \<lceil>rat_of_int (sint d) / 86400000000000\<rceil>
              \<or> sint (RepeatDate s) = \<lceil>rat_of_int (sint d) / 86400000000000\<rceil> - 1)
           \<and> (sint d < 3600000000000000
                \<longrightarrow> sint (RepeatDate s) = \<lceil>rat_of_int (sint d) / 86400000000000\<rceil>))
      \<and> repeatCount s = (if - 60000000000 < sint d \<and> sint d \<le> 0 then 0 else 1)"
proof -
  note u = parseDescriptor_every_unfold [OF assms]
  consider (m) "sint d < 3600000000000"
    | (h) "3600000000000 \<le> sint d" "sint d < 86400000000000"
    | (d) "86400000000000 \<le> sint d"
    by linarith
  then show ?thesis
  proof cases
    case m
    define v where "v = int64_Ceil (Duration_Minutes d)"
    have e: "(sint v = \<lceil>rat_of_int (sint d) / 60000000000\<rceil>
              \<or> sint v = \<lceil>rat_of_int (sint d) / 60000000000\<rceil> - 1)
       \<and> (- 3600000000000000 < sint d \<longrightarrow> sint v = \<lceil>rat_of_int (sint d) / 60000000000\<rceil>)
       \<and> (v = 0 \<longleftrightarrow> - 60000000000 < sint d \<and> sint d \<le> 0)"
      unfolding v_def using m by (rule every_minutes)
    have p: "parseDescriptor (''@every '' @ text) = ok (Schedule_zero\<lparr>RepeatMin := v\<rparr>)"
      using u m by (simp add: v_def)
    have c: "repeatCount (Schedule_zero\<lparr>RepeatMin := v\<rparr>)
        = (if - 60000000000 < sint d \<and> sint d \<le> 0 then 0 else 1)"
      using e repeatCount_one(1) [of v] repeatCount_one(4) by (cases "v = 0") auto
    show ?thesis
      by (rule exI [of _ "Schedule_zero\<lparr>RepeatMin := v\<rparr>"])
         (use p c e m in \<open>simp add: Schedule_zero_def\<close>)
  next
    case h
    define v where "v = int64_Ceil (Duration_Hours d)"
    have e: "sint v = \<lceil>rat_of_int (sint d) / 3600000000000\<rceil> \<and> v \<noteq> 0"
      unfolding v_def using h by (rule every_hours)
    have p: "parseDescriptor (''@every '' @ text) = ok (Schedule_zero\<lparr>RepeatHour := v\<rparr>)"
      using u h by (simp add: v_def)
    have c: "repeatCount (Schedule_zero\<lparr>RepeatHour := v\<rparr>) = 1"
      using e repeatCount_one(2) [of v] by simp
    show ?thesis
      by (rule exI [of _ "Schedule_zero\<lparr>RepeatHour := v\<rparr>"])
         (use p c e h in \<open>simp add: Schedule_zero_def\<close>)
  next
    case d
    define v where "v = int64_Ceil (f64_div (Duration_Hours d) 24)"
    have e: "(sint v = \<lceil>rat_of_int (sint d) / 86400000000000\<rceil>
              \<or> sint v = \<lceil>rat_of_int (sint d) / 86400000000000\<rceil> - 1)
       \<and> (sint d < 3600000000000000 \<longrightarrow> sint v = \<lceil>rat_of_int (sint d) / 86400000000000\<rceil>)
       \<and> v \<noteq> 0"
      unfolding v_def using d by (rule every_days)
    have p: "parseDescriptor (''@every '' @ text) = ok (Schedule_zero\<lparr>RepeatDate := v\<rparr>)"
      using u d by (simp add: v_def)
    have c: "repeatCount (Schedule_zero\<lparr>RepeatDate := v\<rparr>) = 1"
      using e repeatCount_one(3) [of v] by simp
    show ?thesis
      by (rule exI [of _ "Schedule_zero\<lparr>RepeatDate := v\<rparr>"])
         (use p c e d in \<open>simp add: Schedule_zero_def\<close>)
  qed
qed

text \<open>
  C3, amended. For a duration \<open>d\<close> that \<^verbatim>\<open>time.ParseDuration\<close> reads, \<open>@every\<close> returns
  a schedule whose six bitmasks are zero and in which only the repeat field chosen by
  the magnitude of \<open>d\<close> can be populated: the minutes below an hour, the hours from one
  hour to below 24 hours, the days from 24 hours on. The field holds the quotient of
  \<open>d\<close> by a minute, an hour or a day, rounded up, where the \<^verbatim>\<open>float64\<close> arithmetic of
  \<^verbatim>\<open>Duration.Minutes\<close> and \<^verbatim>\<open>Duration.Hours\<close> is exact: for the minutes above -1000
  hours, for the hours always, for the days below 1000 hours. For every other duration
  it holds that number or one less. The chosen field is populated, and so exactly one
  repeat field is, unless \<open>d\<close> is above minus one minute and at most 0; then all three
  repeat fields are zero. \<open>@every 90m\<close> gives 2 hours.
\<close>

theorem parseDescriptor_every:
  assumes "ParseDuration text = Some (Inr d)"
  shows "(\<exists>s. parseDescriptor (''@every '' @ text) = ok s
      \<and> Second s = 0 \<and> Minute s = 0 \<and> Hour s = 0 \<and> Dom s = 0 \<and> Month s = 0 \<and> Dow s = 0
      \<and> Location s = None
      \<and> (sint d < 3600000000000 \<longrightarrow>
           RepeatHour s = 0 \<and> RepeatDate s = 0
           \<and> (sint (RepeatMin s) = \<lceil>rat_of_int (sint d) / 60000000000\<rceil>
              \<or> sint (RepeatMin s) = \<lceil>rat_of_int (sint d) / 60000000000\<rceil> - 1)
           \<and> (- 3600000000000000 < sint d
                \<longrightarrow> sint (RepeatMin s) = \<lceil>rat_of_int (sint d) / 60000000000\<rceil>))
      \<and> (3600000000000 \<le> sint d \<and> sint d < 86400000000000 \<longrightarrow>
           RepeatMin s = 0 \<and> RepeatDate s = 0
           \<and> sint (RepeatHour s) = \<lceil>rat_of_int (sint d) / 3600000000000\<rceil>)
      \<and> (86400000000000 \<le> sint d \<longrightarrow>
           RepeatMin s = 0 \<and> RepeatHour s = 0
           \<and> (sint (RepeatDate s) = \<lceil>rat_of_int (sint d) / 86400000000000\<rceil>
              \<or> sint (RepeatDate s) = \<lceil>rat_of_int (sint d) / 86400000000000\<rceil> - 1)
           \<and> (sint d < 3600000000000000
                \<longrightarrow> sint (RepeatDate s) = \<lceil>rat_of_int (sint d) / 86400000000000\<rceil>))
      \<and> repeatCount s = (if - 60000000000 < sint d \<and> sint d \<le> 0 then 0 else 1))
    \<and> parseDescriptor ''@every 90m'' =
           ok \<lparr>Second = 0, Minute = 0, Hour = 0, Dom = 0, Month = 0, Dow = 0,
               RepeatHour = 2, RepeatMin = 0, RepeatDate = 0, Location = None\<rparr>"
proof -
  have "parseDescriptor ''@every 90m'' =
           ok \<lparr>Second = 0, Minute = 0, Hour = 0, Dom = 0, Month = 0, Dow = 0,
               RepeatHour = 2, RepeatMin = 0, RepeatDate = 0, Location = None\<rparr>"
    by code_simp
  then show ?thesis using every_schedule [OF assms] by (rule conjI [rotated])
qed

theorem parseDescriptor_every_witness:
  "(\<exists>s. parseDescriptor ''@every 30m'' = ok s \<and> bitmasksZero s
        \<and> sint (RepeatMin s) = 30 \<and> RepeatHour s = 0 \<and> RepeatDate s = 0 \<and> repeatCount s = 1)
   \<and> (\<exists>s. parseDescriptor ''@every 1h30m'' = ok s \<and> bitmasksZero s
        \<and> RepeatMin s = 0 \<and> sint (RepeatHour s) = 2 \<and> RepeatDate s = 0 \<and> repeatCount s = 1)
   \<and> (\<exists>s. parseDescriptor ''@every 36h'' = ok s \<and> bitmasksZero s
        \<and> RepeatMin s = 0 \<and> RepeatHour s = 0 \<and> sint (RepeatDate s) = 2 \<and> repeatCount s = 1)
   \<and> (\<exists>s. parseDescriptor ''@every 0s'' = ok s \<and> bitmasksZero s
        \<and> sint (RepeatMin s) = 0 \<and> RepeatHour s = 0 \<and> RepeatDate s = 0 \<and> repeatCount s = 0)"
proof -
  have p: "ParseDuration ''30m'' = Some (Inr 1800000000000)"
    "ParseDuration ''1h30m'' = Some (Inr 5400000000000)"
    "ParseDuration ''36h'' = Some (Inr 129600000000000)"
    "ParseDuration ''0s'' = Some (Inr 0)"
    by code_simp+
  have s: "sint (1800000000000 :: int64) = 1800000000000"
    "sint (5400000000000 :: int64) = 5400000000000"
    "sint (129600000000000 :: int64) = 129600000000000"
    by simp_all
  have c: "\<lceil>rat_of_int 1800000000000 / 60000000000\<rceil> = 30"
    "\<lceil>rat_of_int 5400000000000 / 3600000000000\<rceil> = 2"
    "\<lceil>rat_of_int 129600000000000 / 86400000000000\<rceil> = 2"
    "\<lceil>rat_of_int 0 / 60000000000\<rceil> = 0"
    by code_simp+
  have 1: "\<exists>s. parseDescriptor ''@every 30m'' = ok s \<and> bitmasksZero s
        \<and> sint (RepeatMin s) = 30 \<and> RepeatHour s = 0 \<and> RepeatDate s = 0 \<and> repeatCount s = 1"
    using parseDescriptor_every [OF p(1)] unfolding s c bitmasksZero_def
    by (auto simp del: of_int_numeral)
  have 2: "\<exists>s. parseDescriptor ''@every 1h30m'' = ok s \<and> bitmasksZero s
        \<and> RepeatMin s = 0 \<and> sint (RepeatHour s) = 2 \<and> RepeatDate s = 0 \<and> repeatCount s = 1"
    using parseDescriptor_every [OF p(2)] unfolding s c bitmasksZero_def
    by (auto simp del: of_int_numeral)
  have 3: "\<exists>s. parseDescriptor ''@every 36h'' = ok s \<and> bitmasksZero s
        \<and> RepeatMin s = 0 \<and> RepeatHour s = 0 \<and> sint (RepeatDate s) = 2 \<and> repeatCount s = 1"
    using parseDescriptor_every [OF p(3)] unfolding s c bitmasksZero_def
    by (auto simp del: of_int_numeral)
  have 4: "\<exists>s. parseDescriptor ''@every 0s'' = ok s \<and> bitmasksZero s
        \<and> sint (RepeatMin s) = 0 \<and> RepeatHour s = 0 \<and> RepeatDate s = 0 \<and> repeatCount s = 0"
    using parseDescriptor_every [OF p(4)] unfolding s c bitmasksZero_def
    by (auto simp del: of_int_numeral)
  show ?thesis using 1 2 3 4 by (intro conjI)
qed

section \<open>The kinds of schedule\<close>

text \<open>
  C1, as stated, fails, on three inputs. \<open>@yearly\<close> is accepted, and its schedule has
  the six bitmasks populated together with the repeat-date marker 1001. In the standard
  line \<open>0 0 , * *\<close> the day of month holds a comma only: the line is accepted, and the
  bitmask of the day of month is zero. \<open>@every 0s\<close> is accepted and gives the schedule
  whose fields are all zero. None of the three is a field schedule or an interval
  schedule.
\<close>

theorem Parse_schedule_kinds_counterexample:
  "Parse ''@yearly'' =
     ok \<lparr>Second = 1, Minute = 1, Hour = 1, Dom = 2, Month = 2, Dow = 0x800000000000007F,
         RepeatHour = 0, RepeatMin = 0, RepeatDate = 1001, Location = None\<rparr>
   \<and> \<not> fieldSchedule \<lparr>Second = 1, Minute = 1, Hour = 1, Dom = 2, Month = 2,
         Dow = 0x800000000000007F, RepeatHour = 0, RepeatMin = 0, RepeatDate = 1001,
         Location = None\<rparr>
   \<and> \<not> intervalSchedule \<lparr>Second = 1, Minute = 1, Hour = 1, Dom = 2, Month = 2,
         Dow = 0x800000000000007F, RepeatHour = 0, RepeatMin = 0, RepeatDate = 1001,
         Location = None\<rparr>
   \<and> bitmasksPopulated \<lparr>Second = 1, Minute = 1, Hour = 1, Dom = 2, Month = 2,
         Dow = 0x800000000000007F, RepeatHour = 0, RepeatMin = 0, RepeatDate = 1001,
         Location = None\<rparr>
   \<and> ParseStandard ''0 0 , * *'' =
     ok \<lparr>Second = 1, Minute = 1, Hour = 1, Dom = 0, Month = 0x8000000000001FFE,
         Dow = 0x800000000000007F, RepeatHour = 0, RepeatMin = 0, RepeatDate = 0,
         Location = None\<rparr>
   \<and> \<not> fieldSchedule \<lparr>Second = 1, Minute = 1, Hour = 1, Dom = 0,
         Month = 0x8000000000001FFE, Dow = 0x800000000000007F, RepeatHour = 0, RepeatMin = 0,
         RepeatDate = 0, Location = None\<rparr>
   \<and> \<not> intervalSchedule \<lparr>Second = 1, Minute = 1, Hour = 1, Dom = 0,
         Month = 0x8000000000001FFE, Dow = 0x800000000000007F, RepeatHour = 0, RepeatMin = 0,
         RepeatDate = 0, Location = None\<rparr>
   \<and> Parse ''@every 0s'' = ok Schedule_zero
   \<and> \<not> fieldSchedule Schedule_zero \<and> \<not> intervalSchedule Schedule_zero"
  by code_simp

lemma specRow_populated:
  "bitmasksPopulated (specRow (specMin seconds) (specMin minutes) (specMin hours)
      (specMin dom_b) (specMin months) (specAll dow))"
  "bitmasksPopulated (specRow (specMin seconds) (specMin minutes) (specMin hours)
      (specMin dom_b) (specAll months) (specAll dow))"
  "bitmasksPopulated (specRow (specMin seconds) (specMin minutes) (specMin hours)
      (specAll dom_b) (specAll months) (specMin dow))"
  "bitmasksPopulated (specRow (specMin seconds) (specMin minutes) (specMin hours)
      (specAll dom_b) (specAll months) (specAll dow))"
  "bitmasksPopulated (specRow (specMin seconds) (specMin minutes) (specAll hours)
      (specAll dom_b) (specAll months) (specAll dow))"
  by code_simp+

lemma specRow_repeats:
  "RepeatDate (specRow a b c d e f) = 1001" "RepeatHour (specRow a b c d e f) = 0"
  "RepeatMin (specRow a b c d e f) = 0"
  by (simp_all add: specRow_def)

lemma parseDescriptor_ok:
  assumes "parseDescriptor d = ok s"
  shows "(d \<in> set namedDescriptors \<and> bitmasksPopulated s
            \<and> RepeatDate s = 1001 \<and> RepeatHour s = 0 \<and> RepeatMin s = 0)
       \<or> (HasPrefix d ''@every '' \<and> bitmasksZero s \<and> Location s = None
            \<and> (\<exists>dur. ParseDuration (drop 7 d) = Some (Inr dur)
                  \<and> repeatCount s = (if - 60000000000 < sint dur \<and> sint dur \<le> 0 then 0 else 1)))"
proof -
  consider (y) "d = ''@yearly''" | (a) "d = ''@annually''" | (m) "d = ''@monthly''"
    | (w) "d = ''@weekly''" | (dd) "d = ''@daily''" | (mn) "d = ''@midnight''"
    | (h) "d = ''@hourly''" | (other) "d \<notin> set namedDescriptors"
    by (auto simp add: namedDescriptors_def)
  then show ?thesis
  proof cases
    case y
    then show ?thesis using assms specRow_populated
      by (auto simp add: parseDescriptor_yearly specRow_repeats namedDescriptors_def)
  next
    case a
    then show ?thesis using assms specRow_populated
      by (auto simp add: parseDescriptor_annually specRow_repeats namedDescriptors_def)
  next
    case m
    then show ?thesis using assms specRow_populated
      by (auto simp add: parseDescriptor_monthly specRow_repeats namedDescriptors_def)
  next
    case w
    then show ?thesis using assms specRow_populated
      by (auto simp add: parseDescriptor_weekly specRow_repeats namedDescriptors_def)
  next
    case dd
    then show ?thesis using assms specRow_populated
      by (auto simp add: parseDescriptor_daily specRow_repeats namedDescriptors_def)
  next
    case mn
    then show ?thesis using assms specRow_populated
      by (auto simp add: parseDescriptor_midnight specRow_repeats namedDescriptors_def)
  next
    case h
    then show ?thesis using assms specRow_populated
      by (auto simp add: parseDescriptor_hourly specRow_repeats namedDescriptors_def)
  next
    case other
    then have n: "d \<noteq> ''@yearly''" "d \<noteq> ''@annually''" "d \<noteq> ''@monthly''" "d \<noteq> ''@weekly''"
      "d \<noteq> ''@daily''" "d \<noteq> ''@midnight''" "d \<noteq> ''@hourly''"
      by (auto simp add: namedDescriptors_def)
    have "HasPrefix d ''@every ''
        \<and> (\<exists>dur. ParseDuration (drop (length ''@every '') d) = Some (Inr dur))"
      using assms unfolding parseDescriptor_def
      by (simp only: n if_False HOL.simp_thms)
         (auto simp add: ok_def err_def split: if_splits option.splits sum.splits)
    then obtain dur where p: "HasPrefix d ''@every ''"
      and dur: "ParseDuration (drop 7 d) = Some (Inr dur)"
      by (auto simp add: eval_nat_numeral)
    have "take 7 d = ''@every ''" using p by (simp add: HasPrefix_def eval_nat_numeral)
    then have d: "d = ''@every '' @ drop 7 d"
      using append_take_drop_id [of 7 d] by (simp only:)
    from every_schedule [OF dur] obtain s' where s': "parseDescriptor (''@every '' @ drop 7 d) = ok s'"
      and z: "Second s' = 0 \<and> Minute s' = 0 \<and> Hour s' = 0 \<and> Dom s' = 0 \<and> Month s' = 0 \<and> Dow s' = 0"
      and l: "Location s' = None"
      and c: "repeatCount s' = (if - 60000000000 < sint dur \<and> sint dur \<le> 0 then 0 else 1)"
      by blast
    have "s' = s" using s' assms d by simp
    then show ?thesis using p dur z l c by (auto simp add: bitmasksZero_def)
  qed
qed

lemma field_bounds:
  "0 \<le> sint (min_b seconds)" "sint (max_b seconds) \<le> 63"
  "0 \<le> sint (min_b minutes)" "sint (max_b minutes) \<le> 63"
  "0 \<le> sint (min_b hours)" "sint (max_b hours) \<le> 63"
  "0 \<le> sint (min_b dom_b)" "sint (max_b dom_b) \<le> 63"
  "0 \<le> sint (min_b months)" "sint (max_b months) \<le> 63"
  "0 \<le> sint (min_b dow)" "sint (max_b dow) \<le> 63"
  by (simp_all add: seconds_def minutes_def hours_def dom_b_def months_def dow_def)

lemma fieldPath_ok:
  assumes "bindR (expandFields flds opts) (\<lambda>expFields.
                case expFields of
                  [f0, f1, f2, f3, f4, f5] \<Rightarrow>
                    bindR (getField f0 seconds) (\<lambda>second.
                    bindR (getField f1 minutes) (\<lambda>minute.
                    bindR (getField f2 hours) (\<lambda>hour.
                    bindR (getField f3 dom_b) (\<lambda>dayofmonth.
                    bindR (getField f4 months) (\<lambda>month.
                    bindR (getField f5 dow) (\<lambda>dayofweek.
                    ok (Schedule_zero\<lparr>Second := second, Minute := minute, Hour := hour,
                          Dom := dayofmonth, Month := month, Dow := dayofweek\<rparr>)))))))
                | _ \<Rightarrow> err RuntimePanic) = ok s"
  shows "repeatsZero s \<and> Location s = None
       \<and> (\<exists>f0 f1 f2 f3 f4 f5. expandFields flds opts = ok [f0, f1, f2, f3, f4, f5]
             \<and> (Second s = 0 \<longleftrightarrow> set f0 \<subseteq> {CHR '',''})
             \<and> (Minute s = 0 \<longleftrightarrow> set f1 \<subseteq> {CHR '',''})
             \<and> (Hour s = 0 \<longleftrightarrow> set f2 \<subseteq> {CHR '',''})
             \<and> (Dom s = 0 \<longleftrightarrow> set f3 \<subseteq> {CHR '',''})
             \<and> (Month s = 0 \<longleftrightarrow> set f4 \<subseteq> {CHR '',''})
             \<and> (Dow s = 0 \<longleftrightarrow> set f5 \<subseteq> {CHR '',''}))"
proof -
  from assms obtain e where e: "expandFields flds opts = ok e" and "(case e of
                  [f0, f1, f2, f3, f4, f5] \<Rightarrow>
                    bindR (getField f0 seconds) (\<lambda>second.
                    bindR (getField f1 minutes) (\<lambda>minute.
                    bindR (getField f2 hours) (\<lambda>hour.
                    bindR (getField f3 dom_b) (\<lambda>dayofmonth.
                    bindR (getField f4 months) (\<lambda>month.
                    bindR (getField f5 dow) (\<lambda>dayofweek.
                    ok (Schedule_zero\<lparr>Second := second, Minute := minute, Hour := hour,
                          Dom := dayofmonth, Month := month, Dow := dayofweek\<rparr>)))))))
                | _ \<Rightarrow> err RuntimePanic) = ok s"
    unfolding bindR_eq_ok by blast
  then obtain f0 f1 f2 f3 f4 f5 a b c d m w where f: "e = [f0, f1, f2, f3, f4, f5]"
    and g: "getField f0 seconds = ok a" "getField f1 minutes = ok b" "getField f2 hours = ok c"
      "getField f3 dom_b = ok d" "getField f4 months = ok m" "getField f5 dow = ok w"
    and s: "s = Schedule_zero\<lparr>Second := a, Minute := b, Hour := c, Dom := d, Month := m, Dow := w\<rparr>"
    by (auto simp add: bindR_eq_ok split: list.splits)
  have z: "a = 0 \<longleftrightarrow> set f0 \<subseteq> {CHR '',''}" "b = 0 \<longleftrightarrow> set f1 \<subseteq> {CHR '',''}"
    "c = 0 \<longleftrightarrow> set f2 \<subseteq> {CHR '',''}" "d = 0 \<longleftrightarrow> set f3 \<subseteq> {CHR '',''}"
    "m = 0 \<longleftrightarrow> set f4 \<subseteq> {CHR '',''}" "w = 0 \<longleftrightarrow> set f5 \<subseteq> {CHR '',''}"
    by (rule getField_zero [OF g(1) field_bounds(1,2)], rule getField_zero [OF g(2) field_bounds(3,4)],
        rule getField_zero [OF g(3) field_bounds(5,6)], rule getField_zero [OF g(4) field_bounds(7,8)],
        rule getField_zero [OF g(5) field_bounds(9,10)], rule getField_zero [OF g(6) field_bounds(11,12)])
  have r: "repeatsZero s \<and> Location s = None" by (simp add: s repeatsZero_def Schedule_zero_def)
  have v: "Second s = a" "Minute s = b" "Hour s = c" "Dom s = d" "Month s = m" "Dow s = w"
    by (simp_all add: s)
  show ?thesis unfolding v using r e f z by blast
qed

text \<open>
  C1, amended. A schedule that \<^verbatim>\<open>Parser.Parse\<close> returns is of one of three kinds.
  Either the text is not read as a descriptor: then the three repeat fields are zero,
  and each of the six bitmasks is populated unless the text of its slot, in the layout
  of \<^verbatim>\<open>expandFields\<close>, holds nothing but commas, so that the schedule is a field
  schedule exactly when no slot holds commas only. Or the text is a named descriptor:
  then the six bitmasks are populated, the repeat date is the marker 1001 and the other
  two repeat fields are zero. Or the text starts with \<open>@every\<close>: then the six bitmasks
  are zero, and exactly one repeat field is populated, so that the schedule is an
  interval schedule, unless the duration is above minus one minute and at most 0; then
  no repeat field is populated.
\<close>

theorem Parse_schedule_kinds:
  assumes "Parser_Parse p spec = ok s"
  shows "(\<not> (take 1 spec = ''@'' \<and> 0 <s (options p AND Descriptor_opt))
          \<and> repeatsZero s \<and> Location s = None
          \<and> (\<exists>f0 f1 f2 f3 f4 f5.
                expandFields (Fields spec) (options p) = ok [f0, f1, f2, f3, f4, f5]
                \<and> (Second s = 0 \<longleftrightarrow> set f0 \<subseteq> {CHR '',''})
                \<and> (Minute s = 0 \<longleftrightarrow> set f1 \<subseteq> {CHR '',''})
                \<and> (Hour s = 0 \<longleftrightarrow> set f2 \<subseteq> {CHR '',''})
                \<and> (Dom s = 0 \<longleftrightarrow> set f3 \<subseteq> {CHR '',''})
                \<and> (Month s = 0 \<longleftrightarrow> set f4 \<subseteq> {CHR '',''})
                \<and> (Dow s = 0 \<longleftrightarrow> set f5 \<subseteq> {CHR '',''})
                \<and> (fieldSchedule s \<longleftrightarrow>
                     (\<forall>f \<in> set [f0, f1, f2, f3, f4, f5]. \<not> set f \<subseteq> {CHR '',''}))))
       \<or> (spec \<in> set namedDescriptors \<and> bitmasksPopulated s
            \<and> RepeatDate s = 1001 \<and> RepeatHour s = 0 \<and> RepeatMin s = 0)
       \<or> (HasPrefix spec ''@every '' \<and> bitmasksZero s \<and> Location s = None
            \<and> (\<exists>d. ParseDuration (drop 7 spec) = Some (Inr d)
                  \<and> repeatCount s = (if - 60000000000 < sint d \<and> sint d \<le> 0 then 0 else 1)
                  \<and> (intervalSchedule s \<longleftrightarrow> \<not> (- 60000000000 < sint d \<and> sint d \<le> 0))))"
proof (cases "take 1 spec = ''@'' \<and> 0 <s (options p AND Descriptor_opt)")
  case True
  then have "parseDescriptor spec = ok s"
    using assms by (auto simp add: Parser_Parse_def split: if_splits)
  from parseDescriptor_ok [OF this] show ?thesis
    by (auto simp add: intervalSchedule_def)
next
  case False
  have "repeatsZero s \<and> Location s = None
       \<and> (\<exists>f0 f1 f2 f3 f4 f5. expandFields (Fields spec) (options p) = ok [f0, f1, f2, f3, f4, f5]
             \<and> (Second s = 0 \<longleftrightarrow> set f0 \<subseteq> {CHR '',''})
             \<and> (Minute s = 0 \<longleftrightarrow> set f1 \<subseteq> {CHR '',''})
             \<and> (Hour s = 0 \<longleftrightarrow> set f2 \<subseteq> {CHR '',''})
             \<and> (Dom s = 0 \<longleftrightarrow> set f3 \<subseteq> {CHR '',''})
             \<and> (Month s = 0 \<longleftrightarrow> set f4 \<subseteq> {CHR '',''})
             \<and> (Dow s = 0 \<longleftrightarrow> set f5 \<subseteq> {CHR '',''}))"
    using assms False unfolding Parser_Parse_def Let_def
    by (intro fieldPath_ok) (auto split: if_splits)
  then obtain f0 f1 f2 f3 f4 f5 where r: "repeatsZero s" "Location s = None"
    and e: "expandFields (Fields spec) (options p) = ok [f0, f1, f2, f3, f4, f5]"
    and z: "Second s = 0 \<longleftrightarrow> set f0 \<subseteq> {CHR '',''}" "Minute s = 0 \<longleftrightarrow> set f1 \<subseteq> {CHR '',''}"
      "Hour s = 0 \<longleftrightarrow> set f2 \<subseteq> {CHR '',''}" "Dom s = 0 \<longleftrightarrow> set f3 \<subseteq> {CHR '',''}"
      "Month s = 0 \<longleftrightarrow> set f4 \<subseteq> {CHR '',''}" "Dow s = 0 \<longleftrightarrow> set f5 \<subseteq> {CHR '',''}"
    by blast
  have f: "fieldSchedule s \<longleftrightarrow> (\<forall>f \<in> set [f0, f1, f2, f3, f4, f5]. \<not> set f \<subseteq> {CHR '',''})"
    using r(1) z by (simp add: fieldSchedule_def bitmasksPopulated_def)
  show ?thesis using False r e z f by blast
qed

theorem Parse_schedule_kinds_witness:
  "(\<exists>f0 f1 f2 f3 f4 f5.
       expandFields (Fields ''0 0 , * *'') (options standardParser) = ok [f0, f1, f2, f3, f4, f5]
       \<and> \<not> set f0 \<subseteq> {CHR '',''} \<and> \<not> set f1 \<subseteq> {CHR '',''} \<and> \<not> set f2 \<subseteq> {CHR '',''}
       \<and> set f3 \<subseteq> {CHR '',''} \<and> \<not> set f4 \<subseteq> {CHR '',''} \<and> \<not> set f5 \<subseteq> {CHR '',''})
   \<and> (\<exists>s. Parser_Parse standardParser ''0 0 15 * *'' = ok s \<and> fieldSchedule s)
   \<and> (\<exists>s. Parser_Parse standardParser ''@weekly'' = ok s \<and> bitmasksPopulated s
         \<and> RepeatDate s = 1001 \<and> RepeatHour s = 0 \<and> RepeatMin s = 0)
   \<and> (\<exists>s d. Parser_Parse standardParser ''@every 90m'' = ok s
         \<and> ParseDuration (drop 7 ''@every 90m'') = Some (Inr d)
         \<and> \<not> (- 60000000000 < sint d \<and> sint d \<le> 0) \<and> intervalSchedule s)"
proof -
  have 1: "Parser_Parse standardParser ''0 0 , * *'' =
     ok \<lparr>Second = 1, Minute = 1, Hour = 1, Dom = 0, Month = 0x8000000000001FFE,
         Dow = 0x800000000000007F, RepeatHour = 0, RepeatMin = 0, RepeatDate = 0,
         Location = None\<rparr>"
    by code_simp
  have 2: "Parser_Parse standardParser ''@weekly'' =
     ok \<lparr>Second = 1, Minute = 1, Hour = 1, Dom = 0x80000000FFFFFFFE, Month = 0x8000000000001FFE,
         Dow = 1, RepeatHour = 0, RepeatMin = 0, RepeatDate = 1001, Location = None\<rparr>"
    by code_simp
  have 3: "Parser_Parse standardParser ''@every 90m'' = ok (Schedule_zero\<lparr>RepeatHour := 2\<rparr>)"
    by code_simp
  have 4: "Parser_Parse standardParser ''0 0 15 * *'' =
     ok \<lparr>Second = 1, Minute = 1, Hour = 1, Dom = 0x8000, Month = 0x8000000000001FFE,
         Dow = 0x800000000000007F, RepeatHour = 0, RepeatMin = 0, RepeatDate = 0,
         Location = None\<rparr>"
    by code_simp
  have n: "0 <s (options standardParser AND Descriptor_opt)" by code_simp
  have d: "ParseDuration (drop 7 ''@every 90m'') = Some (Inr 5400000000000)" by code_simp
  have sd: "sint (5400000000000 :: int64) = 5400000000000" by simp
  have a: "\<exists>f0 f1 f2 f3 f4 f5.
       expandFields (Fields ''0 0 , * *'') (options standardParser) = ok [f0, f1, f2, f3, f4, f5]
       \<and> \<not> set f0 \<subseteq> {CHR '',''} \<and> \<not> set f1 \<subseteq> {CHR '',''} \<and> \<not> set f2 \<subseteq> {CHR '',''}
       \<and> set f3 \<subseteq> {CHR '',''} \<and> \<not> set f4 \<subseteq> {CHR '',''} \<and> \<not> set f5 \<subseteq> {CHR '',''}"
    using Parse_schedule_kinds [OF 1]
    by (simp add: namedDescriptors_def HasPrefix_def) blast
  have b: "\<exists>s. Parser_Parse standardParser ''@weekly'' = ok s \<and> bitmasksPopulated s
         \<and> RepeatDate s = 1001 \<and> RepeatHour s = 0 \<and> RepeatMin s = 0"
    using Parse_schedule_kinds [OF 2] 2 n
    by (simp add: HasPrefix_def repeatsZero_def)
  have c: "\<exists>s d. Parser_Parse standardParser ''@every 90m'' = ok s
         \<and> ParseDuration (drop 7 ''@every 90m'') = Some (Inr d)
         \<and> \<not> (- 60000000000 < sint d \<and> sint d \<le> 0) \<and> intervalSchedule s"
    using Parse_schedule_kinds [OF 3] 3 n d
    by (simp add: namedDescriptors_def repeatsZero_def Schedule_zero_def sd)
  have e: "\<exists>s. Parser_Parse standardParser ''0 0 15 * *'' = ok s \<and> fieldSchedule s"
  proof -
    have l: "expandFields (Fields ''0 0 15 * *'') (options standardParser)
        = ok [''0'', ''0'', ''0'', ''15'', ''*'', ''*'']"
      by code_simp
    show ?thesis using Parse_schedule_kinds [OF 4] 4 l
      by (simp add: namedDescriptors_def HasPrefix_def)
  qed
  show ?thesis using a e b c by (intro conjI)
qed

section \<open>Every call returns\<close>

text \<open>
  The loop of \<^verbatim>\<open>getBits\<close> ends for every step but 0, with a mask or with the panic of
  a negative shift count; \<^verbatim>\<open>getRange\<close> rejects the step 0 before it calls \<^verbatim>\<open>getBits\<close>.
  The loop of \<^verbatim>\<open>time.ParseDuration\<close> ends since every round reads a unit of at least
  one character. So no call of \<^verbatim>\<open>Parse\<close> runs forever.
\<close>

lemma getBits_loop_returns:
  assumes "step \<noteq> 0"
  shows "\<exists>res. getBits_loop upper step i bits = Some res"
proof -
  have s0: "sint step \<noteq> 0" using assms by (metis sint_0 signed_word_eqI)
  have out: "\<exists>res. getBits_loop upper step i bits = Some res"
    if "\<not> (0 \<le> sint i \<and> sint i \<le> sint upper)" for i bits
  proof (cases "sint i \<le> sint upper")
    case True
    then have "sint i < 0" using that by simp
    then show ?thesis using True
      by (subst getBits_loop.simps) (simp add: word_sle_eq shl_neg)
  next
    case False
    then show ?thesis by (subst getBits_loop.simps) (simp add: word_sle_eq)
  qed
  have main: "\<exists>res. getBits_loop upper step i bits = Some res"
    if "0 \<le> sint i" "sint i \<le> sint upper" for i bits
    using that
  proof (induction "if 0 < sint step then nat (sint upper - sint i) else nat (sint i)"
      arbitrary: i bits rule: less_induct)
    case less
    have unf: "getBits_loop upper step i bits =
        getBits_loop upper step (i + step) (bits OR push_bit (nat (sint i)) 1)"
      using less.prems by (subst getBits_loop.simps) (simp add: word_sle_eq shl_nonneg)
    show ?case
    proof (cases "0 \<le> sint (i + step) \<and> sint (i + step) \<le> sint upper")
      case False
      then show ?thesis unfolding unf by (rule out)
    next
      case True
      have rng: "sint i < 2 ^ 63" "- (2 ^ 63) \<le> sint step" "sint step < 2 ^ 63" "sint upper < 2 ^ 63"
        using sint_less [of i] sint_ge [of step] sint_less [of step] sint_less [of upper] by simp_all
      have si: "sint (i + step) = sint i + sint step"
      proof (cases "sint i + sint step < 2 ^ 63")
        case True
        then show ?thesis using less.prems rng by (intro sint_add_small) simp_all
      next
        case False
        then have "sint (i + step) = sint i + sint step - 2 ^ 64"
          by (intro sint_add_wrap) simp
        then have "sint (i + step) < 0" using rng by simp
        then show ?thesis using True by simp
      qed
      have "(if 0 < sint step then nat (sint upper - sint (i + step)) else nat (sint (i + step)))
          < (if 0 < sint step then nat (sint upper - sint i) else nat (sint i))"
        using si s0 True less.prems by auto
      from less.hyps [OF this] True show ?thesis unfolding unf by blast
    qed
  qed
  show ?thesis using out main by blast
qed

lemma getBits_returns: "step \<noteq> 0 \<Longrightarrow> \<exists>res. getBits lo hi step = Some res"
  using getBits_loop_returns [of step hi lo 0]
  by (auto simp add: getBits_def bindR_def ok_def split: sum.splits)

lemma bindR_returns:
  assumes "\<exists>res. m = Some res" "\<And>v. \<exists>res. f v = Some res"
  shows "\<exists>res. bindR m f = Some res"
  using assms by (auto simp add: bindR_def split: option.splits sum.splits)

lemma ok_returns [simp]: "\<exists>res. ok v = Some res"
  by (simp add: ok_def)

lemma err_returns [simp]: "\<exists>res. err e = Some res"
  by (simp add: err_def)

lemma getRange_returns: "\<exists>res. getRange expr r = Some res"
  unfolding getRange_def Let_def
  by (intro bindR_returns)
     (auto simp add: getBits_returns split: list.splits prod.splits intro!: bindR_returns)

lemma getField_loop_returns: "\<exists>res. getField_loop ranges r bits = Some res"
  by (induction ranges arbitrary: bits) (auto intro!: bindR_returns getRange_returns)

lemma getField_returns: "\<exists>res. getField field r = Some res"
  by (simp add: getField_def getField_loop_returns)

lemma leadingInt_from_length:
  "leadingInt_from x s = Some (v, rest) \<Longrightarrow> length rest \<le> length s"
  by (induction s arbitrary: x) (auto split: if_splits intro: le_SucI)

lemma leadingFraction_from_length:
  "leadingFraction_from x scale overflow s = (f, scale', rest) \<Longrightarrow> length rest \<le> length s"
  by (induction s arbitrary: x scale overflow) (auto split: if_splits intro: le_SucI)

lemma dropWhile_shorter: "takeWhile P xs \<noteq> [] \<Longrightarrow> length (dropWhile P xs) < length xs"
  by (cases xs) (auto simp add: length_dropWhile_le le_imp_less_Suc split: if_splits)

lemma durationTerm_length:
  assumes "durationTerm s = Inr (v, rest)"
  shows "length rest < length s"
proof -
  from assms obtain v0 s1 where li: "leadingInt s = Some (v0, s1)"
    by (auto simp add: durationTerm_def split: if_splits option.splits)
  then have l1: "length s1 \<le> length s" by (simp add: leadingInt_def leadingInt_from_length)
  obtain f scale s2 where fr:
    "(if take 1 s1 = ''.'' then leadingFraction (drop 1 s1) else (0, 1, s1)) = (f, scale, s2)"
    by (metis prod_cases3)
  have l2: "length s2 \<le> length s1"
  proof (cases "take 1 s1 = ''.''")
    case True
    then have "leadingFraction_from 0 1 False (drop 1 s1) = (f, scale, s2)"
      using fr by (simp add: leadingFraction_def)
    then have "length s2 \<le> length (drop 1 s1)" by (rule leadingFraction_from_length)
    then show ?thesis by simp
  next
    case False
    then show ?thesis using fr by simp
  qed
  have "takeWhile (\<lambda>c. \<not> isDigitOrDot c) s2 \<noteq> []"
    and "rest = dropWhile (\<lambda>c. \<not> isDigitOrDot c) s2"
    using assms li fr
    by (auto simp add: durationTerm_def Let_def split: if_splits option.splits)
  then have "length rest < length s2" by (simp add: dropWhile_shorter)
  then show ?thesis using l1 l2 by simp
qed

lemma ParseDuration_loop_returns: "\<exists>res. ParseDuration_loop d s = Some res"
proof (induction "length s" arbitrary: d s rule: less_induct)
  case less
  show ?case
  proof (cases "s = []")
    case True
    then show ?thesis by (subst ParseDuration_loop.simps) simp
  next
    case False
    show ?thesis
    proof (cases "durationTerm s")
      case (Inl e)
      then show ?thesis using False by (subst ParseDuration_loop.simps) simp
    next
      case (Inr p)
      obtain v rest where p: "p = (v, rest)" by (cases p)
      have "length rest < length s" using Inr p by (simp add: durationTerm_length)
      from less.hyps [OF this, of "d + v"] show ?thesis
        using False Inr p by (subst ParseDuration_loop.simps) auto
    qed
  qed
qed

lemma ParseDuration_returns: "\<exists>res. ParseDuration text = Some res"
proof -
  obtain res where "ParseDuration_loop 0
      (if take 1 text = ''-'' \<or> take 1 text = ''+'' then drop 1 text else text) = Some res"
    using ParseDuration_loop_returns by blast
  then show ?thesis
    unfolding ParseDuration_def Let_def by (auto split: sum.splits)
qed

lemma parseDescriptor_returns: "\<exists>res. parseDescriptor d = Some res"
proof -
  consider (y) "d = ''@yearly''" | (a) "d = ''@annually''" | (m) "d = ''@monthly''"
    | (w) "d = ''@weekly''" | (dd) "d = ''@daily''" | (mn) "d = ''@midnight''"
    | (h) "d = ''@hourly''" | (other) "d \<notin> set namedDescriptors"
    by (auto simp add: namedDescriptors_def)
  then show ?thesis
  proof cases
    case other
    then have n: "d \<noteq> ''@yearly''" "d \<noteq> ''@annually''" "d \<noteq> ''@monthly''" "d \<noteq> ''@weekly''"
      "d \<noteq> ''@daily''" "d \<noteq> ''@midnight''" "d \<noteq> ''@hourly''"
      by (auto simp add: namedDescriptors_def)
    obtain res where "ParseDuration (drop (length ''@every '') d) = Some res"
      using ParseDuration_returns by blast
    then show ?thesis unfolding parseDescriptor_def
      by (simp only: n if_False HOL.simp_thms) (auto split: sum.splits)
  qed (simp_all add: parseDescriptor_yearly parseDescriptor_annually parseDescriptor_monthly
        parseDescriptor_weekly parseDescriptor_daily parseDescriptor_midnight parseDescriptor_hourly)
qed

lemma expandFields_loop_returns:
  "\<exists>res. expandFields_loop flds opts i rest n expFields = Some res"
  by (induction rest arbitrary: i n expFields) auto

lemma Parser_Parse_returns: "\<exists>res. Parser_Parse p spec = Some res"
  unfolding Parser_Parse_def Let_def
  by (auto simp add: parseDescriptor_returns expandFields_def expandFields_loop_returns
      getField_returns split: list.splits intro!: bindR_returns)

end
